theory Spec2Isabelle
  imports Main "HOL-Library.Sublist"
begin

section \<open>Errors\<close>

text \<open>
  Every error the program returns, one constructor per \<^verbatim>\<open>fmt.Errorf\<close> of the source; the
  wrapping ones carry the error they wrap. A run-time panic (a failed type assertion, an
  index out of range, a slice capacity out of range) is the value \<open>Panic\<close>, and a fatal
  error of the run-time system (out of memory) is the value \<open>Fatal\<close>: neither is caught, so
  neither is ever wrapped.
\<close>

datatype error =
    Panic string
  | Fatal string
  | OpenError
  | ReadingJSONStart
  | ReadingJSONKey
  | ReadingJSONValue
  | ReadingJSONEnd
  | ApiError string
  | TranslationMismatch nat nat
  | TranslatingBatch error
  | TranslatingFinalBatch error
  | ReadingInputFile error
  | ReadingOutputFile error
  | TranslatingJSONValues error
  | WritingOutputFile error
  | CreatingOutputDirectory
  | EncodingKey
  | EncodingValue
  | WritingToFile

definition wrapError :: "(error \<Rightarrow> error) \<Rightarrow> error \<Rightarrow> error" where
  "wrapError f e = (case e of Panic p \<Rightarrow> Panic p | Fatal p \<Rightarrow> Fatal p | _ \<Rightarrow> f e)"

section \<open>Go's strings package\<close>

text \<open>
  A Go string is a sequence of bytes, here a \<open>string\<close>. \<^verbatim>\<open>strings.ReplaceAll\<close> and
  \<^verbatim>\<open>strings.Split\<close> scan from the left and take non-overlapping matches. The program only
  passes a non-empty \<^verbatim>\<open>old\<close> and a non-empty separator; what Go does with an empty one is
  left out (the functions are unspecified there).
\<close>

fun ReplaceAll :: "string \<Rightarrow> string \<Rightarrow> string \<Rightarrow> string" where
  "ReplaceAll [] (c # cs) new = []"
| "ReplaceAll (x # xs) (c # cs) new =
     (if prefix (c # cs) (x # xs) then new @ ReplaceAll (drop (length cs) xs) (c # cs) new
      else x # ReplaceAll xs (c # cs) new)"

fun Split :: "string \<Rightarrow> string \<Rightarrow> string list" where
  "Split [] (c # cs) = [[]]"
| "Split (x # xs) (c # cs) =
     (if prefix (c # cs) (x # xs) then [] # Split (drop (length cs) xs) (c # cs)
      else (case Split xs (c # cs) of p # ps \<Rightarrow> (x # p) # ps))"

fun Join :: "string list \<Rightarrow> string \<Rightarrow> string" where
  "Join [] sep = []"
| "Join [x] sep = x"
| "Join (x # y # ys) sep = x @ sep @ Join (y # ys) sep"

text \<open>
  \<^verbatim>\<open>strings.TrimSpace\<close> removes the leading and trailing white space that
  \<^verbatim>\<open>unicode.IsSpace\<close> accepts: tab, line feed, vertical tab, form feed, carriage return,
  space, U+0085, U+00A0, U+1680, U+2000 to U+200A, U+2028, U+2029, U+202F, U+205F and
  U+3000, listed here by their UTF-8 encodings.
\<close>

definition whiteSpace :: "string list" where
  "whiteSpace =
     [[CHR 0x09], [CHR 0x0A], [CHR 0x0B], [CHR 0x0C], [CHR 0x0D], [CHR 0x20],
      [CHR 0xC2, CHR 0x85], [CHR 0xC2, CHR 0xA0],
      [CHR 0xE1, CHR 0x9A, CHR 0x80],
      [CHR 0xE2, CHR 0x80, CHR 0x80], [CHR 0xE2, CHR 0x80, CHR 0x81],
      [CHR 0xE2, CHR 0x80, CHR 0x82], [CHR 0xE2, CHR 0x80, CHR 0x83],
      [CHR 0xE2, CHR 0x80, CHR 0x84], [CHR 0xE2, CHR 0x80, CHR 0x85],
      [CHR 0xE2, CHR 0x80, CHR 0x86], [CHR 0xE2, CHR 0x80, CHR 0x87],
      [CHR 0xE2, CHR 0x80, CHR 0x88], [CHR 0xE2, CHR 0x80, CHR 0x89],
      [CHR 0xE2, CHR 0x80, CHR 0x8A],
      [CHR 0xE2, CHR 0x80, CHR 0xA8], [CHR 0xE2, CHR 0x80, CHR 0xA9],
      [CHR 0xE2, CHR 0x80, CHR 0xAF], [CHR 0xE2, CHR 0x81, CHR 0x9F],
      [CHR 0xE3, CHR 0x80, CHR 0x80]]"

text \<open>The length of the white-space character a string starts (ends) with, 0 when it has none.\<close>

definition leadingSpace :: "string \<Rightarrow> nat" where
  "leadingSpace s =
     (case find (\<lambda>w. prefix w s) whiteSpace of None \<Rightarrow> 0 | Some w \<Rightarrow> length w)"

definition trailingSpace :: "string \<Rightarrow> nat" where
  "trailingSpace s =
     (case find (\<lambda>w. suffix w s) whiteSpace of None \<Rightarrow> 0 | Some w \<Rightarrow> length w)"

lemma leadingSpace_le: "leadingSpace s \<le> length s"
  by (auto simp: leadingSpace_def find_Some_iff prefix_length_le split: option.splits)

lemma trailingSpace_le: "trailingSpace s \<le> length s"
  by (auto simp: trailingSpace_def find_Some_iff suffix_length_le split: option.splits)

function TrimLeftSpace :: "string \<Rightarrow> string" where
  "TrimLeftSpace s =
     (if leadingSpace s = 0 then s else TrimLeftSpace (drop (leadingSpace s) s))"
  by pat_completeness auto
termination
proof (relation "measure length")
  fix s assume "leadingSpace s \<noteq> 0"
  then show "(drop (leadingSpace s) s, s) \<in> measure length"
    using leadingSpace_le [of s] by simp
qed simp

function TrimRightSpace :: "string \<Rightarrow> string" where
  "TrimRightSpace s =
     (if trailingSpace s = 0 then s
      else TrimRightSpace (take (length s - trailingSpace s) s))"
  by pat_completeness auto
termination
proof (relation "measure length")
  fix s assume "trailingSpace s \<noteq> 0"
  then show "(take (length s - trailingSpace s) s, s) \<in> measure length"
    using trailingSpace_le [of s] by simp
qed simp

declare TrimLeftSpace.simps [simp del]
declare TrimRightSpace.simps [simp del]

definition TrimSpace :: "string \<Rightarrow> string" where
  "TrimSpace s = TrimRightSpace (TrimLeftSpace s)"

section \<open>The ordered key-value store\<close>

text \<open>
  The Go type \<^verbatim>\<open>OrderedMap\<close> pairs a slice of keys (insertion order) with a built-in
  map from key to value. The field \<^verbatim>\<open>values\<close> is written \<open>values'\<close> here.
\<close>

record OrderedMap =
  keys :: "string list"
  values' :: "string \<rightharpoonup> string"

definition NewOrderedMap :: OrderedMap where
  "NewOrderedMap = \<lparr>keys = [], values' = Map.empty\<rparr>"

text \<open>\<^verbatim>\<open>Set\<close> appends the key only when the map has no entry for it, then stores the value.\<close>

definition Set :: "OrderedMap \<Rightarrow> string \<Rightarrow> string \<Rightarrow> OrderedMap" where
  "Set om key v =
     \<lparr>keys = (if values' om key = None then keys om @ [key] else keys om),
      values' = (values' om)(key \<mapsto> v)\<rparr>"

text \<open>
  \<^verbatim>\<open>Get\<close> is Go's two-result map read: the value (the empty string when the key is
  missing) and whether the key exists.
\<close>

definition Get :: "OrderedMap \<Rightarrow> string \<Rightarrow> string \<times> bool" where
  "Get om key = (case values' om key of None \<Rightarrow> ('''', False) | Some v \<Rightarrow> (v, True))"

section \<open>The merge engine\<close>

text \<open>
  One iteration of the loop of \<^verbatim>\<open>mergeJSON\<close>: the merged value starts as the input
  value; the key is appended to the untranslated keys when the output has no entry for
  it or holds the same value, and the output's value overwrites the merged one otherwise.
\<close>

definition mergeStep ::
  "OrderedMap \<Rightarrow> OrderedMap \<Rightarrow> string \<Rightarrow> OrderedMap \<times> string list \<Rightarrow> OrderedMap \<times> string list"
where
  "mergeStep input output key acc =
     (let (merged, untranslatedKeys) = acc;
          inputValue = fst (Get input key);
          merged = Set merged key inputValue;
          (outputValue, exists) = Get output key
      in if \<not> exists \<or> outputValue = inputValue
         then (merged, untranslatedKeys @ [key])
         else (Set merged key outputValue, untranslatedKeys))"

definition mergeJSON :: "OrderedMap \<Rightarrow> OrderedMap \<Rightarrow> OrderedMap \<times> string list" where
  "mergeJSON input output = fold (mergeStep input output) (keys input) (NewOrderedMap, [])"

section \<open>The translation call\<close>

text \<open>The line feed \<^verbatim>\<open>"\n"\<close> and the constant \<^verbatim>\<open>newlinePlaceholder\<close>.\<close>

definition newline :: string where
  "newline = [CHR 0x0A]"

definition newlinePlaceholder :: string where
  "newlinePlaceholder = ''{{NEWLINE_PLACEHOLDER}}''"

definition systemPromptText :: string where
  "systemPromptText = ''You are a professional translator specializing in localizing web content. Your task is to translate the given texts accurately while preserving all HTML structure and the special placeholder {{NEWLINE_PLACEHOLDER}}. Strictly maintain all HTML tags and the placeholder in their original form and position. Translate only the content between tags, not the tags themselves or the placeholder. Provide only the translated texts, each on a new line, maintaining the original order. Do not add any comments, explanations, or additional formatting.''"

text \<open>
  The request \<^verbatim>\<open>translateText\<close> sends: the model, the system message, and the three
  arguments that fill the fixed format string of the user message (the number of texts,
  the target language, and the texts joined by line feeds).
\<close>

record ChatCompletionRequest =
  Model :: string
  SystemContent :: string
  UserCount :: nat
  UserLanguage :: string
  UserTexts :: string

text \<open>
  \<^verbatim>\<open>client.CreateChatCompletion\<close> is outside the program: a function of the request and of
  a state of its own, which answers with an error or with the contents of the choices of
  the response.
\<close>

type_synonym 's client = "'s \<Rightarrow> ChatCompletionRequest \<Rightarrow> (string + string list) \<times> 's"

definition cleanTranslation :: "string \<Rightarrow> string" where
  "cleanTranslation translation = TrimSpace translation"

text \<open>
  The first loop of \<^verbatim>\<open>translateText\<close>: the texts that are not blank, each with its
  index (\<^verbatim>\<open>nonEmptyIndices\<close> and \<^verbatim>\<open>nonEmptyTexts\<close>, kept as one list of pairs).
\<close>

definition nonEmptyEntries :: "string list \<Rightarrow> (nat \<times> string) list" where
  "nonEmptyEntries texts = filter (\<lambda>(i, t). TrimSpace t \<noteq> []) (enumerate 0 texts)"

text \<open>The request built from the texts that are not blank.\<close>

definition chatRequest :: "string \<Rightarrow> string \<Rightarrow> string \<Rightarrow> string list \<Rightarrow> ChatCompletionRequest" where
  "chatRequest model customPrompt targetLanguage nonEmptyTexts =
     \<lparr>Model = model,
      SystemContent =
        (if customPrompt \<noteq> [] then systemPromptText @ '' '' @ customPrompt
         else systemPromptText),
      UserCount = length nonEmptyTexts,
      UserLanguage = targetLanguage,
      UserTexts = Join nonEmptyTexts newline\<rparr>"

text \<open>
  The last loop of \<^verbatim>\<open>translateText\<close>: a copy of the texts in which each translated line,
  cleaned, stands at the index of the text it translates. The two slices the loop walks
  have the same length, so the model zips them.
\<close>

definition placeTranslations :: "nat list \<Rightarrow> string list \<Rightarrow> string list \<Rightarrow> string list" where
  "placeTranslations nonEmptyIndices translatedTexts texts =
     fold (\<lambda>(i, translatedText) r. r[i := cleanTranslation translatedText])
       (zip nonEmptyIndices translatedTexts) texts"

text \<open>
  \<^verbatim>\<open>translateText\<close>. An empty list of choices makes \<^verbatim>\<open>resp.Choices[0]\<close> panic.
\<close>

definition translateText ::
  "'s client \<Rightarrow> 's \<Rightarrow> string list \<Rightarrow> string \<Rightarrow> string \<Rightarrow> string \<Rightarrow> (error + string list) \<times> 's"
where
  "translateText client s texts targetLanguage customPrompt model =
     (if length texts = 0 then (Inr [], s)
      else
        let nonEmptyTexts = map snd (nonEmptyEntries texts);
            nonEmptyIndices = map fst (nonEmptyEntries texts)
        in if length nonEmptyTexts = 0 then (Inr texts, s)
           else
             let (resp, s') =
                   client s (chatRequest model customPrompt targetLanguage nonEmptyTexts)
             in case resp of
                  Inl err \<Rightarrow> (Inl (ApiError err), s')
                | Inr [] \<Rightarrow> (Inl (Panic ''index out of range''), s')
                | Inr (content # _) \<Rightarrow>
                    let translatedTexts = Split content newline
                    in if length translatedTexts \<noteq> length nonEmptyTexts
                       then (Inl (TranslationMismatch (length translatedTexts)
                                    (length nonEmptyTexts)), s')
                       else
                         let translatedTexts = map cleanTranslation translatedTexts
                         in (Inr (placeTranslations nonEmptyIndices translatedTexts texts),
                             s'))"

section \<open>The batch translator\<close>

text \<open>
  The loop that stores a translated batch: the placeholder of each value is turned back
  into a line feed and the value is set under the key at the same index.
  \<^verbatim>\<open>translateText\<close> returns as many values as it was given, so no index is out of range.
\<close>

definition storeBatch :: "string list \<Rightarrow> string list \<Rightarrow> OrderedMap \<Rightarrow> OrderedMap" where
  "storeBatch batchKeys translatedBatch translatedData =
     fold (\<lambda>(key, translatedValue) td.
             Set td key (ReplaceAll translatedValue newlinePlaceholder newline))
          (zip batchKeys translatedBatch) translatedData"

text \<open>
  The main loop of \<^verbatim>\<open>translateJSONValues\<close> over the keys that are left, with the
  translated data, the current batch and its keys as the loop's variables. The parameter
  \<open>tr\<close> is \<^verbatim>\<open>translateText\<close> with the client, the language, the custom prompt and the
  model fixed.
\<close>

fun batchLoop ::
  "('s \<Rightarrow> string list \<Rightarrow> (error + string list) \<times> 's) \<Rightarrow> int \<Rightarrow> OrderedMap \<Rightarrow> string list
    \<Rightarrow> OrderedMap \<times> string list \<times> string list \<Rightarrow> 's
    \<Rightarrow> (error + OrderedMap \<times> string list \<times> string list) \<times> 's"
where
  "batchLoop tr batchSize data [] vars s = (Inr vars, s)"
| "batchLoop tr batchSize data (key # rest) (translatedData, batch, batchKeys) s =
     (let v = fst (Get data key);
          v = ReplaceAll v newline newlinePlaceholder;
          batch = batch @ [v];
          batchKeys = batchKeys @ [key]
      in if int (length batch) = batchSize
         then (case tr s batch of
                 (Inl err, s') \<Rightarrow> (Inl (wrapError TranslatingBatch err), s')
               | (Inr translatedBatch, s') \<Rightarrow>
                   batchLoop tr batchSize data rest
                     (storeBatch batchKeys translatedBatch translatedData, [], []) s')
         else batchLoop tr batchSize data rest (translatedData, batch, batchKeys) s)"

text \<open>
  \<^verbatim>\<open>make([]string, 0, cap)\<close> on a 64-bit platform, as \<^verbatim>\<open>runtime.makeslice\<close> does it. A
  string takes 16 bytes and the run-time system serves no request above \<^verbatim>\<open>maxAlloc\<close>,
  2 to the power 48 bytes: a capacity that is negative or takes more is out of range, a
  panic. A capacity in the range is asked of the machine, and the program ends with a
  fatal error when the machine does not give the memory. The number of bytes the machine
  gives to one request is a parameter of the model, \<open>mem\<close>; \<open>None\<close> is the slice allocated.
\<close>

definition stringSize :: int where
  "stringSize = 16"

definition maxAlloc :: int where
  "maxAlloc = 2 ^ 48"

definition makeslice :: "int \<Rightarrow> int \<Rightarrow> error option" where
  "makeslice mem cap =
     (if cap < 0 \<or> maxAlloc < stringSize * cap then Some (Panic ''makeslice: cap out of range'')
      else if mem < stringSize * cap then Some (Fatal ''runtime: out of memory'')
      else None)"

text \<open>
  \<^verbatim>\<open>translateJSONValues\<close>. The two slices of the batch are made with the capacity
  \<^verbatim>\<open>batchSize\<close> before the loop. After the loop the items that did not fill a batch are
  translated.
\<close>

definition translateJSONValues ::
  "int \<Rightarrow> 's client \<Rightarrow> 's \<Rightarrow> OrderedMap \<Rightarrow> string \<Rightarrow> int \<Rightarrow> string \<Rightarrow> string
    \<Rightarrow> (error + OrderedMap) \<times> 's"
where
  "translateJSONValues mem client s data targetLanguage batchSize customPrompt model =
     (let tr = (\<lambda>s texts. translateText client s texts targetLanguage customPrompt model)
      in case makeslice mem batchSize of
           Some err \<Rightarrow> (Inl err, s)
         | None \<Rightarrow>
          (case makeslice mem batchSize of
             Some err \<Rightarrow> (Inl err, s)
           | None \<Rightarrow>
              (case batchLoop tr batchSize data (keys data) (NewOrderedMap, [], []) s of
                 (Inl err, s') \<Rightarrow> (Inl err, s')
               | (Inr (translatedData, batch, batchKeys), s') \<Rightarrow>
                   if length batch > 0
                   then (case tr s' batch of
                           (Inl err, s'') \<Rightarrow> (Inl (wrapError TranslatingFinalBatch err), s'')
                         | (Inr translatedBatch, s'') \<Rightarrow>
                             (Inr (storeBatch batchKeys translatedBatch translatedData), s''))
                   else (Inr translatedData, s'))))"

section \<open>The file system\<close>

text \<open>
  What \<^verbatim>\<open>os.Open\<close> finds at a path: no file, a file that cannot be opened, or the bytes
  of a file.
\<close>

datatype fentry = NotExist | OpenFails | Contents string

text \<open>
  The file system: the entry at each path, the file paths whose directory
  \<^verbatim>\<open>os.MkdirAll(filepath.Dir(path))\<close> has made, and the paths at which making the
  directory or writing the file fails.
\<close>

record filesystem =
  files :: "string \<Rightarrow> fentry"
  dirsMadeFor :: "string set"
  mkdirFails :: "string \<Rightarrow> bool"
  writeFails :: "string \<Rightarrow> bool"

definition MkdirAllDir :: "filesystem \<Rightarrow> string \<Rightarrow> filesystem option" where
  "MkdirAllDir fs filename =
     (if mkdirFails fs filename then None
      else Some (fs\<lparr>dirsMadeFor := insert filename (dirsMadeFor fs)\<rparr>))"

definition WriteFile :: "filesystem \<Rightarrow> string \<Rightarrow> string \<Rightarrow> filesystem option" where
  "WriteFile fs filename bytes =
     (if writeFails fs filename then None
      else Some (fs\<lparr>files := (files fs)(filename := Contents bytes)\<rparr>))"

section \<open>The JSON decoder of the standard library\<close>

text \<open>
  \<^verbatim>\<open>encoding/json\<close> is outside the program. Its scanner is a parameter of the model: a
  function from the bytes of a file to the JSON tokens they hold, up to the end of the
  file. A string literal is given by the string it decodes to; a number, \<^verbatim>\<open>true\<close> and
  \<^verbatim>\<open>false\<close> are one kind of token; \<open>LInvalid\<close> stands for bytes that form no token.
\<close>

datatype lexeme =
    LBrace | RBrace | LBracket | RBracket | Colon | Comma
  | LString string | LNull | LScalar | LInvalid

text \<open>The values \<^verbatim>\<open>Decoder.Token\<close> returns: a delimiter, a string, nil, or a number or boolean.\<close>

datatype token = Delim char | TString string | TNil | TScalar

datatype tokenState =
    tokenTopValue | tokenArrayStart | tokenArrayValue | tokenArrayComma
  | tokenObjectStart | tokenObjectKey | tokenObjectColon | tokenObjectValue
  | tokenObjectComma

text \<open>
  The decoder: its token state, the stack of the states of the enclosing arrays and
  objects (innermost first), and the tokens not read yet.
\<close>

record Decoder =
  tokenState :: tokenState
  tokenStack :: "tokenState list"
  unread :: "lexeme list"

definition NewDecoder :: "lexeme list \<Rightarrow> Decoder" where
  "NewDecoder ls = \<lparr>tokenState = tokenTopValue, tokenStack = [], unread = ls\<rparr>"

definition tokenValueAllowed :: "tokenState \<Rightarrow> bool" where
  "tokenValueAllowed st \<longleftrightarrow>
     st = tokenTopValue \<or> st = tokenArrayStart \<or> st = tokenArrayValue \<or> st = tokenObjectValue"

definition tokenValueEnd :: "tokenState \<Rightarrow> tokenState" where
  "tokenValueEnd st =
     (if st = tokenArrayStart \<or> st = tokenArrayValue then tokenArrayComma
      else if st = tokenObjectValue then tokenObjectComma
      else st)"

text \<open>
  \<^verbatim>\<open>tokenPrepareForDecode\<close>: after an array element a comma must follow, after an object
  key a colon; \<open>None\<close> is the syntax error.
\<close>

definition tokenPrepareForDecode :: "Decoder \<Rightarrow> Decoder option" where
  "tokenPrepareForDecode dec =
     (if tokenState dec = tokenArrayComma then
        (case unread dec of
           Comma # rest \<Rightarrow> Some (dec\<lparr>tokenState := tokenArrayValue, unread := rest\<rparr>)
         | _ \<Rightarrow> None)
      else if tokenState dec = tokenObjectColon then
        (case unread dec of
           Colon # rest \<Rightarrow> Some (dec\<lparr>tokenState := tokenObjectValue, unread := rest\<rparr>)
         | _ \<Rightarrow> None)
      else Some dec)"

text \<open>
  \<^verbatim>\<open>Decoder.Decode\<close> into a string variable that holds the empty string: a string
  literal is stored, \<^verbatim>\<open>null\<close> leaves the variable as it is, and every other value (a
  number, a boolean, an array, an object) or a token that starts no value is an error.
\<close>

definition DecodeString :: "Decoder \<Rightarrow> (string \<times> Decoder) option" where
  "DecodeString dec =
     (case tokenPrepareForDecode dec of
        None \<Rightarrow> None
      | Some d \<Rightarrow>
          if \<not> tokenValueAllowed (tokenState d) then None
          else (case unread d of
                  LString v # rest \<Rightarrow>
                    Some (v, d\<lparr>tokenState := tokenValueEnd (tokenState d), unread := rest\<rparr>)
                | LNull # rest \<Rightarrow>
                    Some ('''', d\<lparr>tokenState := tokenValueEnd (tokenState d), unread := rest\<rparr>)
                | _ \<Rightarrow> None))"

text \<open>
  The default case of \<^verbatim>\<open>Decoder.Token\<close>: a value is decoded into an empty interface
  where a value is allowed.
\<close>

definition tokenOfValue :: "token \<Rightarrow> Decoder \<Rightarrow> lexeme list \<Rightarrow> (token \<times> Decoder) option" where
  "tokenOfValue t dec rest =
     (if \<not> tokenValueAllowed (tokenState dec) then None
      else Some (t, dec\<lparr>tokenState := tokenValueEnd (tokenState dec), unread := rest\<rparr>))"

text \<open>
  \<^verbatim>\<open>Decoder.Token\<close>; \<open>None\<close> is its error. A closing delimiter pops the state of the
  enclosing value; the stack is not empty there, since the state says that an array or an
  object is open. A colon and a comma are consumed and the next token is read.
\<close>

function Token :: "Decoder \<Rightarrow> (token \<times> Decoder) option" where
  "Token dec =
     (case unread dec of
        [] \<Rightarrow> None
      | LBracket # rest \<Rightarrow>
          if \<not> tokenValueAllowed (tokenState dec) then None
          else Some (Delim CHR ''['',
                 dec\<lparr>tokenStack := tokenState dec # tokenStack dec,
                     tokenState := tokenArrayStart, unread := rest\<rparr>)
      | RBracket # rest \<Rightarrow>
          if tokenState dec \<noteq> tokenArrayStart \<and> tokenState dec \<noteq> tokenArrayComma then None
          else (case tokenStack dec of
                  [] \<Rightarrow> None
                | outer # stack \<Rightarrow>
                    Some (Delim CHR '']'',
                      dec\<lparr>tokenState := tokenValueEnd outer, tokenStack := stack,
                          unread := rest\<rparr>))
      | LBrace # rest \<Rightarrow>
          if \<not> tokenValueAllowed (tokenState dec) then None
          else Some (Delim CHR ''{'',
                 dec\<lparr>tokenStack := tokenState dec # tokenStack dec,
                     tokenState := tokenObjectStart, unread := rest\<rparr>)
      | RBrace # rest \<Rightarrow>
          if tokenState dec \<noteq> tokenObjectStart \<and> tokenState dec \<noteq> tokenObjectComma then None
          else (case tokenStack dec of
                  [] \<Rightarrow> None
                | outer # stack \<Rightarrow>
                    Some (Delim CHR ''}'',
                      dec\<lparr>tokenState := tokenValueEnd outer, tokenStack := stack,
                          unread := rest\<rparr>))
      | Colon # rest \<Rightarrow>
          if tokenState dec \<noteq> tokenObjectColon then None
          else Token (dec\<lparr>tokenState := tokenObjectValue, unread := rest\<rparr>)
      | Comma # rest \<Rightarrow>
          if tokenState dec = tokenArrayComma
          then Token (dec\<lparr>tokenState := tokenArrayValue, unread := rest\<rparr>)
          else if tokenState dec = tokenObjectComma
          then Token (dec\<lparr>tokenState := tokenObjectKey, unread := rest\<rparr>)
          else None
      | LString v # rest \<Rightarrow>
          if tokenState dec = tokenObjectStart \<or> tokenState dec = tokenObjectKey
          then Some (TString v, dec\<lparr>tokenState := tokenObjectColon, unread := rest\<rparr>)
          else tokenOfValue (TString v) dec rest
      | LNull # rest \<Rightarrow> tokenOfValue TNil dec rest
      | LScalar # rest \<Rightarrow> tokenOfValue TScalar dec rest
      | LInvalid # rest \<Rightarrow> None)"
  by pat_completeness auto
termination
  by (relation "measure (\<lambda>dec. length (unread dec))") auto

declare Token.simps [simp del]

text \<open>\<^verbatim>\<open>Decoder.More\<close>: a next token can be peeked and is no closing delimiter.\<close>

definition More :: "Decoder \<Rightarrow> bool" where
  "More dec =
     (case unread dec of [] \<Rightarrow> False | RBracket # _ \<Rightarrow> False | RBrace # _ \<Rightarrow> False
      | _ \<Rightarrow> True)"

lemma Token_shorter:
  "Token dec = Some (t, dec') \<Longrightarrow> length (unread dec') < length (unread dec)"
proof (induction dec rule: Token.induct)
  case (1 dec)
  show ?case
  proof (cases "unread dec")
    case Nil
    with "1.prems" show ?thesis by (simp add: Token.simps)
  next
    case (Cons l rest)
    show ?thesis
    proof (cases l)
      case Colon
      with "1.prems" Cons "1.IH"(1) [OF Cons Colon] show ?thesis
        by (subst (asm) Token.simps) (auto split: if_splits)
    next
      case Comma
      with "1.prems" Cons "1.IH"(2) [OF Cons Comma] "1.IH"(3) [OF Cons Comma] show ?thesis
        by (subst (asm) Token.simps) (auto split: if_splits)
    qed (use "1.prems" Cons in \<open>subst (asm) Token.simps,
          auto simp: tokenOfValue_def split: if_splits list.splits\<close>)+
  qed
qed

lemma DecodeString_shorter:
  "DecodeString dec = Some (v, dec') \<Longrightarrow> length (unread dec') < length (unread dec)"
  by (auto simp: DecodeString_def tokenPrepareForDecode_def
      split: option.splits if_splits list.splits lexeme.splits)

section \<open>Reading a document\<close>

text \<open>
  The loop of \<^verbatim>\<open>readJSONFile\<close>: while the decoder has more, a key token and a string
  value are read and set in the map. The type assertion \<^verbatim>\<open>key.(string)\<close> has no check:
  it panics on a key token that is not a string.
\<close>

function readEntries :: "Decoder \<Rightarrow> OrderedMap \<Rightarrow> error + OrderedMap \<times> Decoder" where
  "readEntries decoder orderedMap =
     (if \<not> More decoder then Inr (orderedMap, decoder)
      else (case Token decoder of
              None \<Rightarrow> Inl ReadingJSONKey
            | Some (key, decoder1) \<Rightarrow>
                (case DecodeString decoder1 of
                   None \<Rightarrow> Inl ReadingJSONValue
                 | Some (v, decoder2) \<Rightarrow>
                     (case key of
                        TString k \<Rightarrow> readEntries decoder2 (Set orderedMap k v)
                      | _ \<Rightarrow> Inl (Panic ''interface conversion: interface {} is not string'')))))"
  by pat_completeness auto
termination
proof (relation "measure (\<lambda>(decoder, orderedMap). length (unread decoder))")
  fix decoder :: Decoder and orderedMap :: OrderedMap and x2 key decoder1 x2a v decoder2 k
  assume "Token decoder = Some x2" and "(key, decoder1) = x2"
    and "DecodeString decoder1 = Some x2a" and "(v, decoder2) = x2a"
  then have "length (unread decoder1) < length (unread decoder)"
    and "length (unread decoder2) < length (unread decoder1)"
    using Token_shorter [of decoder key decoder1] DecodeString_shorter [of decoder1 v decoder2]
    by auto
  then show "((decoder2, Set orderedMap k v), decoder, orderedMap)
      \<in> measure (\<lambda>(decoder, orderedMap). length (unread decoder))"
    by simp
qed simp

declare readEntries.simps [simp del]

text \<open>
  \<^verbatim>\<open>readJSONFile\<close>: a file that does not exist is an empty map and no error; the first
  token is read and dropped, whatever it is; after the loop one more token is read and
  dropped.
\<close>

definition readJSONFile :: "(string \<Rightarrow> lexeme list) \<Rightarrow> filesystem \<Rightarrow> string \<Rightarrow> error + OrderedMap" where
  "readJSONFile scan fs filename =
     (case files fs filename of
        NotExist \<Rightarrow> Inr NewOrderedMap
      | OpenFails \<Rightarrow> Inl OpenError
      | Contents bytes \<Rightarrow>
          (case Token (NewDecoder (scan bytes)) of
             None \<Rightarrow> Inl ReadingJSONStart
           | Some (start, decoder) \<Rightarrow>
               (case readEntries decoder NewOrderedMap of
                  Inl err \<Rightarrow> Inl err
                | Inr (orderedMap, decoder') \<Rightarrow>
                    (case Token decoder' of
                       None \<Rightarrow> Inl ReadingJSONEnd
                     | Some end' \<Rightarrow> Inr orderedMap))))"

section \<open>Writing a document\<close>

text \<open>
  \<^verbatim>\<open>encodeJSON\<close>. The encoder of the standard library is a parameter: \<open>jsonEncode\<close>
  takes the setting of \<^verbatim>\<open>SetEscapeHTML\<close> and a string and gives what
  \<^verbatim>\<open>Encoder.Encode\<close> writes for it, which never fails for a string. \<^verbatim>\<open>encodeJSON\<close> turns
  HTML escaping off and trims the result.
\<close>

definition encodeJSON :: "(bool \<Rightarrow> string \<Rightarrow> string) \<Rightarrow> string \<Rightarrow> error + string" where
  "encodeJSON jsonEncode v = Inr (TrimSpace (jsonEncode False v))"

text \<open>
  The loop of \<^verbatim>\<open>writeJSONFile\<close> from index \<open>i\<close> on: two spaces, the key, a colon and a
  space, the value, a comma unless the entry is the last, a line feed.
\<close>

fun encodeEntries ::
  "(bool \<Rightarrow> string \<Rightarrow> string) \<Rightarrow> OrderedMap \<Rightarrow> nat \<Rightarrow> string list \<Rightarrow> error + string"
where
  "encodeEntries jsonEncode data i [] = Inr []"
| "encodeEntries jsonEncode data i (key # rest) =
     (case encodeJSON jsonEncode key of
        Inl err \<Rightarrow> Inl EncodingKey
      | Inr keyJSON \<Rightarrow>
          (case encodeJSON jsonEncode (fst (Get data key)) of
             Inl err \<Rightarrow> Inl EncodingValue
           | Inr valueJSON \<Rightarrow>
               (case encodeEntries jsonEncode data (Suc i) rest of
                  Inl err \<Rightarrow> Inl err
                | Inr entries \<Rightarrow>
                    Inr (''  '' @ keyJSON @ '': '' @ valueJSON
                         @ (if int i < int (length (keys data)) - 1 then '','' else [])
                         @ newline @ entries))))"

definition writeJSONFile ::
  "(bool \<Rightarrow> string \<Rightarrow> string) \<Rightarrow> filesystem \<Rightarrow> string \<Rightarrow> OrderedMap \<Rightarrow> error option \<times> filesystem"
where
  "writeJSONFile jsonEncode fs filename data =
     (case MkdirAllDir fs filename of
        None \<Rightarrow> (Some CreatingOutputDirectory, fs)
      | Some fs1 \<Rightarrow>
          (case encodeEntries jsonEncode data 0 (keys data) of
             Inl err \<Rightarrow> (Some err, fs1)
           | Inr entries \<Rightarrow>
               (case WriteFile fs1 filename (''{'' @ newline @ entries @ ''}'' @ newline) of
                  None \<Rightarrow> (Some WritingToFile, fs1)
                | Some fs2 \<Rightarrow> (None, fs2))))"

section \<open>The run\<close>

text \<open>
  The values \<^verbatim>\<open>translateJSON\<close> computes from the flags and the environment before it
  reads a file: the two paths, the name of the target language (\<^verbatim>\<open>targetLanguage\<close>), the
  batch size, the custom prompt and the model. With them stands the memory the machine
  gives to the allocation of the batch, the one allocation whose size a flag sets.
\<close>

record settings =
  inputFile :: string
  outputFile :: string
  languageName :: string
  batchSizeFlag :: int
  customPromptEnv :: string
  modelFlag :: string
  availableMemory :: int

text \<open>
  The block of \<^verbatim>\<open>translateJSON\<close> under \<^verbatim>\<open>len(untranslatedKeys) > 0\<close>: the untranslated
  keys are collected with their merged values, translated, and the translated values
  are set in the merged map.
\<close>

definition translateUntranslated ::
  "'s client \<Rightarrow> settings \<Rightarrow> 's \<Rightarrow> OrderedMap \<Rightarrow> string list \<Rightarrow> (error + OrderedMap) \<times> 's"
where
  "translateUntranslated client cfg s mergedJSON untranslatedKeys =
     (if length untranslatedKeys > 0 then
        let toTranslate =
              fold (\<lambda>key t. case Get mergedJSON key of
                               (v, True) \<Rightarrow> Set t key v
                             | (v, False) \<Rightarrow> t)
                untranslatedKeys NewOrderedMap
        in case translateJSONValues (availableMemory cfg) client s toTranslate (languageName cfg)
                  (batchSizeFlag cfg) (customPromptEnv cfg) (modelFlag cfg) of
             (Inl err, s') \<Rightarrow> (Inl (wrapError TranslatingJSONValues err), s')
           | (Inr translatedData, s') \<Rightarrow>
               (Inr (fold (\<lambda>key m. case Get translatedData key of
                                     (v, True) \<Rightarrow> Set m key v
                                   | (v, False) \<Rightarrow> m)
                       (keys translatedData) mergedJSON), s')
      else (Inr mergedJSON, s))"

text \<open>
  \<^verbatim>\<open>translateJSON\<close> from the reading of the input file on: the error it returns (if
  any), the file system and the state of the client after the run.
\<close>

definition translateJSON ::
  "(string \<Rightarrow> lexeme list) \<Rightarrow> (bool \<Rightarrow> string \<Rightarrow> string) \<Rightarrow> 's client \<Rightarrow> settings
    \<Rightarrow> filesystem \<Rightarrow> 's \<Rightarrow> error option \<times> filesystem \<times> 's"
where
  "translateJSON scan jsonEncode client cfg fs s =
     (case readJSONFile scan fs (inputFile cfg) of
        Inl err \<Rightarrow> (Some (wrapError ReadingInputFile err), fs, s)
      | Inr inputJSON \<Rightarrow>
          (case readJSONFile scan fs (outputFile cfg) of
             Inl err \<Rightarrow> (Some (wrapError ReadingOutputFile err), fs, s)
           | Inr outputJSON \<Rightarrow>
               let (mergedJSON, untranslatedKeys) = mergeJSON inputJSON outputJSON
               in case translateUntranslated client cfg s mergedJSON untranslatedKeys of
                    (Inl err, s') \<Rightarrow> (Some err, fs, s')
                  | (Inr mergedJSON, s') \<Rightarrow>
                      (case writeJSONFile jsonEncode fs (outputFile cfg) mergedJSON of
                         (Some err, fs') \<Rightarrow> (Some (wrapError WritingOutputFile err), fs', s')
                       | (None, fs') \<Rightarrow> (None, fs', s'))))"

section \<open>Well-formed stores\<close>

text \<open>
  The invariant of every store the program builds: no key occurs twice in the key
  sequence, and the key sequence lists exactly the keys of the map.
\<close>

definition wf_store :: "OrderedMap \<Rightarrow> bool" where
  "wf_store om \<longleftrightarrow> distinct (keys om) \<and> set (keys om) = dom (values' om)"

text \<open>
  The test of the merge loop, read off the two stores: the output has no entry for the
  key, or its entry equals the input's.
\<close>

definition needsTranslation :: "OrderedMap \<Rightarrow> OrderedMap \<Rightarrow> string \<Rightarrow> bool" where
  "needsTranslation input output key \<longleftrightarrow>
     values' output key = None \<or> values' output key = values' input key"

section \<open>Notions used in the statements\<close>

text \<open>
  The two replacements of \<^verbatim>\<open>translateJSONValues\<close>: every line feed becomes the
  placeholder before a value is sent, every placeholder becomes a line feed before a
  translated value is stored.
\<close>

abbreviation protect :: "string \<Rightarrow> string" where
  "protect v \<equiv> ReplaceAll v newline newlinePlaceholder"

abbreviation unprotect :: "string \<Rightarrow> string" where
  "unprotect v \<equiv> ReplaceAll v newlinePlaceholder newline"

text \<open>The bytes that occur in the encodings of white space.\<close>

definition spaceBytes :: "char set" where
  "spaceBytes = \<Union> (set ` set whiteSpace)"

text \<open>
  An identity translation stub: the call answers with one choice whose content is the
  text it was sent, and has no state of its own to change.
\<close>

definition identityClient :: "'s client" where
  "identityClient s req = (Inr [UserTexts req], s)"

text \<open>
  What the identity stub makes of one text of a batch: a blank text is not sent and
  stays; any other comes back as sent and is cleaned twice by \<^verbatim>\<open>translateText\<close>.
\<close>

definition echoed :: "string \<Rightarrow> string" where
  "echoed t = (if TrimSpace t = [] then t else cleanTranslation (cleanTranslation t))"

text \<open>
  A client that records its calls: it behaves as the client it wraps, and appends every
  request with the answer it got to a log kept beside the client's state.
\<close>

definition logged ::
  "'s client \<Rightarrow> ('s \<times> (ChatCompletionRequest \<times> (string + string list)) list) client"
where
  "logged client = (\<lambda>(s, log) req.
     let (resp, s') = client s req in (resp, (s', log @ [(req, resp)])))"


text \<open>
  A call that translated its batch: it answered with a content that has as many lines as
  the request has texts.
\<close>

definition answered :: "ChatCompletionRequest \<Rightarrow> string + string list \<Rightarrow> bool" where
  "answered req resp \<longleftrightarrow>
     (case resp of
        Inr (content # others) \<Rightarrow> length (Split content newline) = UserCount req
      | _ \<Rightarrow> False)"

text \<open>A request none of whose lines of text is blank.\<close>

definition noBlankLine :: "ChatCompletionRequest \<Rightarrow> bool" where
  "noBlankLine req \<longleftrightarrow> (\<forall>line\<in>set (Split (UserTexts req) newline). TrimSpace line \<noteq> [])"

text \<open>
  The tokens of a flat document: the entries \<open>(key, value)\<close> in order, string literals
  with a separator between key and value and commas between entries, inside braces for
  an object and inside brackets for an array (where the separator is a comma too).
\<close>

fun entryLexemes :: "lexeme \<Rightarrow> (string \<times> string) list \<Rightarrow> lexeme list" where
  "entryLexemes sep [] = []"
| "entryLexemes sep [(k, v)] = [LString k, sep, LString v]"
| "entryLexemes sep ((k, v) # e # es) =
     LString k # sep # LString v # Comma # entryLexemes sep (e # es)"

definition objectLexemes :: "(string \<times> string) list \<Rightarrow> lexeme list" where
  "objectLexemes es = LBrace # entryLexemes Colon es @ [RBrace]"

definition arrayLexemes :: "(string \<times> string) list \<Rightarrow> lexeme list" where
  "arrayLexemes es = LBracket # entryLexemes Comma es @ [RBracket]"

text \<open>The store that holds the entries in order, a later value for a key replacing an earlier one.\<close>

definition storeOf :: "(string \<times> string) list \<Rightarrow> OrderedMap" where
  "storeOf es = fold (\<lambda>(k, v) om. Set om k v) es NewOrderedMap"

text \<open>
  The lines of the document for the entries in order: each entry on a line of its own,
  indented by two spaces, key and value encoded with HTML escaping off and trimmed, a
  comma after every entry but the last.
\<close>

fun documentLines :: "(bool \<Rightarrow> string \<Rightarrow> string) \<Rightarrow> (string \<times> string) list \<Rightarrow> string" where
  "documentLines jsonEncode [] = []"
| "documentLines jsonEncode [(k, v)] =
     ''  '' @ TrimSpace (jsonEncode False k) @ '': '' @ TrimSpace (jsonEncode False v) @ newline"
| "documentLines jsonEncode ((k, v) # e # es) =
     ''  '' @ TrimSpace (jsonEncode False k) @ '': '' @ TrimSpace (jsonEncode False v)
     @ '','' @ newline @ documentLines jsonEncode (e # es)"

text \<open>
  The texts that the requests of a log hold, in the order of the calls, and the lines
  that the answers hold (an answer that is an error or has no choice holds none).
\<close>

definition requestLines :: "(ChatCompletionRequest \<times> (string + string list)) list \<Rightarrow> string list" where
  "requestLines log = concat (map (\<lambda>(req, resp). Split (UserTexts req) newline) log)"

definition answerLines :: "(ChatCompletionRequest \<times> (string + string list)) list \<Rightarrow> string list" where
  "answerLines log =
     concat (map (\<lambda>(req, resp). case resp of
                                   Inr (content # others) \<Rightarrow> Split content newline
                                 | _ \<Rightarrow> []) log)"

text \<open>
  The keys among \<open>ks\<close> whose value is sent to the translation call: the value, with its
  line feeds replaced by the placeholder, is not blank.
\<close>

definition sentKeys :: "OrderedMap \<Rightarrow> string list \<Rightarrow> string list" where
  "sentKeys data ks = filter (\<lambda>k. TrimSpace (protect (fst (Get data k))) \<noteq> []) ks"


text \<open>
  The invariant of the loop of \<^verbatim>\<open>translateJSONValues\<close> with respect to the log of the
  calls made so far: the translated data is well formed, its keys followed by the keys of
  the current batch are the processed keys, the batch holds their protected values, the
  texts of the requests are in order the protected values of the stored keys that are
  sent, and the values stored under these keys are in the same order the lines of the
  answers, each cleaned twice and with its placeholders turned into line feeds.
\<close>

definition traceInvariant ::
  "OrderedMap \<Rightarrow> string list \<Rightarrow> OrderedMap \<times> string list \<times> string list
    \<Rightarrow> (ChatCompletionRequest \<times> (string + string list)) list \<Rightarrow> bool"
where
  "traceInvariant data processed vars log =
     (case vars of (td, batch, bks) \<Rightarrow>
        wf_store td \<and> keys td @ bks = processed \<and> distinct processed
        \<and> batch = map (\<lambda>k. protect (fst (Get data k))) bks
        \<and> requestLines log = map (\<lambda>k. protect (fst (Get data k))) (sentKeys data (keys td))
        \<and> map (values' td) (sentKeys data (keys td))
            = map (\<lambda>line. Some (unprotect (cleanTranslation (cleanTranslation line))))
                (answerLines log))"



section \<open>Properties of the store\<close>

lemma wf_NewOrderedMap: "wf_store NewOrderedMap"
  by (simp add: wf_store_def NewOrderedMap_def)

lemma wf_Set: "wf_store om \<Longrightarrow> wf_store (Set om key v)"
  by (auto simp: wf_store_def Set_def dom_def)

lemma keys_Set_new: "values' om key = None \<Longrightarrow> keys (Set om key v) = keys om @ [key]"
  by (simp add: Set_def)

lemma keys_Set_old: "values' om key \<noteq> None \<Longrightarrow> keys (Set om key v) = keys om"
  by (simp add: Set_def)

lemma values_Set: "values' (Set om key v) = (values' om)(key \<mapsto> v)"
  by (simp add: Set_def)

section \<open>Properties of the merge\<close>

lemma mergeStep_eq:
  assumes "values' input key = Some iv" and "values' merged key = None"
  shows "mergeStep input output key (merged, us) =
     (\<lparr>keys = keys merged @ [key],
       values' = (values' merged)(key \<mapsto>
          (if needsTranslation input output key then iv else the (values' output key)))\<rparr>,
      if needsTranslation input output key then us @ [key] else us)"
  using assms
  by (auto simp: mergeStep_def Get_def Set_def needsTranslation_def split: option.splits)

lemma merge_fold:
  assumes "distinct ks" and "set ks \<inter> dom (values' merged) = {}"
    and "set ks \<subseteq> dom (values' input)"
  shows "fold (mergeStep input output) ks (merged, us) =
     (\<lparr>keys = keys merged @ ks,
       values' = (\<lambda>k. if k \<in> set ks
                      then (if needsTranslation input output k then values' input k
                            else values' output k)
                      else values' merged k)\<rparr>,
      us @ filter (needsTranslation input output) ks)"
  using assms
proof (induction ks arbitrary: merged us)
  case Nil
  then show ?case by simp
next
  case (Cons k ks)
  from Cons.prems obtain iv where iv: "values' input k = Some iv" by auto
  from Cons.prems have fresh: "values' merged k = None" by auto
  let ?v = "if needsTranslation input output k then iv else the (values' output k)"
  let ?m = "\<lparr>keys = keys merged @ [k], values' = (values' merged)(k \<mapsto> ?v)\<rparr>"
  have step: "mergeStep input output k (merged, us) =
      (?m, if needsTranslation input output k then us @ [k] else us)"
    using mergeStep_eq [OF iv fresh] .
  have d: "distinct ks" and disj: "set ks \<inter> dom (values' ?m) = {}"
    and sub: "set ks \<subseteq> dom (values' input)"
    using Cons.prems by auto
  have out: "\<not> needsTranslation input output k \<Longrightarrow> values' output k = Some (the (values' output k))"
    by (auto simp: needsTranslation_def)
  show ?case
    using Cons.prems iv out
    by (simp add: step Cons.IH [OF d disj sub] fun_eq_iff)
qed

lemma mergeJSON_eq:
  assumes "wf_store input"
  shows "mergeJSON input output =
     (\<lparr>keys = keys input,
       values' = (\<lambda>k. if k \<in> set (keys input)
                      then (if needsTranslation input output k then values' input k
                            else values' output k)
                      else None)\<rparr>,
      filter (needsTranslation input output) (keys input))"
proof -
  have "distinct (keys input)" and "set (keys input) \<subseteq> dom (values' input)"
    using assms by (auto simp: wf_store_def)
  then show ?thesis
    unfolding mergeJSON_def
    using merge_fold [of "keys input" NewOrderedMap "input" "output" "[]"]
    by (simp add: NewOrderedMap_def cong: if_cong)
qed

text \<open>
  Claim C1. For a well-formed source store and any existing-output store, the merge
  walks the source's keys in insertion order; a key is put on the untranslated list
  exactly when the existing store has no entry for it or holds the source value, and
  then the merged value is the source value; otherwise the merged value is the existing
  value and the key is not listed. The merged store has the source's key sequence, and
  holds nothing for any other key, so keys only the existing store has are dropped.
\<close>

theorem mergeJSON_spec:
  assumes "wf_store input"
  shows "keys (fst (mergeJSON input output)) = keys input
    \<and> snd (mergeJSON input output) = filter (needsTranslation input output) (keys input)
    \<and> (\<forall>k. values' (fst (mergeJSON input output)) k =
          (if k \<in> set (keys input)
           then (if needsTranslation input output k then values' input k
                 else values' output k)
           else None))"
  by (simp add: mergeJSON_eq [OF assms])

text \<open>
  The claim at the stores of the spec's examples: source \<open>{a: Hello, b: X}\<close> against the
  existing output \<open>{a: Bonjour, c: Z}\<close> keeps \<open>Bonjour\<close>, lists only \<open>b\<close> and drops \<open>c\<close>.
\<close>

theorem mergeJSON_spec_witness:
  "wf_store \<lparr>keys = [''a'', ''b''], values' = [''a'' \<mapsto> ''Hello'', ''b'' \<mapsto> ''X'']\<rparr>
   \<and> keys (fst (mergeJSON
        \<lparr>keys = [''a'', ''b''], values' = [''a'' \<mapsto> ''Hello'', ''b'' \<mapsto> ''X'']\<rparr>
        \<lparr>keys = [''a'', ''c''], values' = [''a'' \<mapsto> ''Bonjour'', ''c'' \<mapsto> ''Z'']\<rparr>))
      = [''a'', ''b'']
   \<and> snd (mergeJSON
        \<lparr>keys = [''a'', ''b''], values' = [''a'' \<mapsto> ''Hello'', ''b'' \<mapsto> ''X'']\<rparr>
        \<lparr>keys = [''a'', ''c''], values' = [''a'' \<mapsto> ''Bonjour'', ''c'' \<mapsto> ''Z'']\<rparr>)
      = [''b'']
   \<and> values' (fst (mergeJSON
        \<lparr>keys = [''a'', ''b''], values' = [''a'' \<mapsto> ''Hello'', ''b'' \<mapsto> ''X'']\<rparr>
        \<lparr>keys = [''a'', ''c''], values' = [''a'' \<mapsto> ''Bonjour'', ''c'' \<mapsto> ''Z'']\<rparr>)) ''a''
      = Some ''Bonjour''
   \<and> values' (fst (mergeJSON
        \<lparr>keys = [''a'', ''b''], values' = [''a'' \<mapsto> ''Hello'', ''b'' \<mapsto> ''X'']\<rparr>
        \<lparr>keys = [''a'', ''c''], values' = [''a'' \<mapsto> ''Bonjour'', ''c'' \<mapsto> ''Z'']\<rparr>)) ''c''
      = None"
proof -
  have wf: "wf_store \<lparr>keys = [''a'', ''b''], values' = [''a'' \<mapsto> ''Hello'', ''b'' \<mapsto> ''X'']\<rparr>"
    by (auto simp: wf_store_def)
  show ?thesis
    using wf mergeJSON_spec [OF wf,
        of "\<lparr>keys = [''a'', ''c''], values' = [''a'' \<mapsto> ''Bonjour'', ''c'' \<mapsto> ''Z'']\<rparr>"]
    by (simp add: needsTranslation_def)
qed

section \<open>Properties of \<^verbatim>\<open>translateText\<close>\<close>

lemma placeTranslations_length: "length (placeTranslations is ts r) = length r"
  unfolding placeTranslations_def
proof (induction "is" arbitrary: ts r)
  case Nil
  then show ?case by simp
next
  case (Cons a "is")
  then show ?case by (cases ts) auto
qed

lemma placeTranslations_other:
  "i \<notin> set is \<Longrightarrow> placeTranslations is ts r ! i = r ! i"
  unfolding placeTranslations_def
proof (induction "is" arbitrary: ts r)
  case Nil
  then show ?case by simp
next
  case (Cons a "is")
  then show ?case by (cases ts) auto
qed

lemma placeTranslations_nth:
  assumes "distinct is" and "length is = length ts" and "\<forall>i\<in>set is. i < length r"
    and "j < length is"
  shows "placeTranslations is ts r ! (is ! j) = cleanTranslation (ts ! j)"
  using assms
proof (induction "is" arbitrary: ts r j)
  case Nil
  then show ?case by simp
next
  case (Cons a "is")
  then obtain t ts' where ts: "ts = t # ts'" by (cases ts) auto
  have unf: "placeTranslations (a # is) ts r = placeTranslations is ts' (r[a := cleanTranslation t])"
    by (simp add: placeTranslations_def ts)
  show ?case
  proof (cases j)
    case 0
    have "placeTranslations is ts' (r[a := cleanTranslation t]) ! a = cleanTranslation t"
      using Cons.prems by (simp add: placeTranslations_other)
    then show ?thesis
      unfolding unf using 0 by (simp add: ts)
  next
    case (Suc j')
    have "placeTranslations is ts' (r[a := cleanTranslation t]) ! (is ! j') = cleanTranslation (ts' ! j')"
      using Cons.prems Suc by (intro Cons.IH) (auto simp: ts)
    then show ?thesis
      unfolding unf using Suc by (simp add: ts)
  qed
qed

lemma nonEmptyEntries_fst_distinct: "distinct (map fst (nonEmptyEntries texts))"
  unfolding nonEmptyEntries_def
  by (rule distinct_map_filter) (simp add: distinct_enumerate)

lemma nonEmptyEntries_mem:
  "(i, t) \<in> set (nonEmptyEntries texts) \<longleftrightarrow> i < length texts \<and> t = texts ! i \<and> TrimSpace t \<noteq> []"
  unfolding nonEmptyEntries_def
  by (auto simp: in_set_enumerate_eq)

lemma nonEmptyEntries_nth:
  assumes "j < length (nonEmptyEntries texts)"
  shows "fst (nonEmptyEntries texts ! j) < length texts"
    and "snd (nonEmptyEntries texts ! j) = texts ! fst (nonEmptyEntries texts ! j)"
    and "TrimSpace (snd (nonEmptyEntries texts ! j)) \<noteq> []"
proof -
  have "(fst (nonEmptyEntries texts ! j), snd (nonEmptyEntries texts ! j)) \<in> set (nonEmptyEntries texts)"
    using assms by simp
  then show "fst (nonEmptyEntries texts ! j) < length texts"
    and "snd (nonEmptyEntries texts ! j) = texts ! fst (nonEmptyEntries texts ! j)"
    and "TrimSpace (snd (nonEmptyEntries texts ! j)) \<noteq> []"
    unfolding nonEmptyEntries_mem by auto
qed

lemma blank_not_index:
  assumes "TrimSpace (texts ! i) = []"
  shows "i \<notin> set (map fst (nonEmptyEntries texts))"
  using assms by (auto simp: nonEmptyEntries_mem)

text \<open>
  One call of \<^verbatim>\<open>translateText\<close> that reaches the client and is answered with a content:
  when the number of lines of the content differs from the number of texts sent, the
  result is the translation-mismatch error; otherwise it is a list of the length of the
  batch in which the j-th returned line, cleaned of surrounding white space, stands at
  the index of the j-th text sent, and every blank text stands unchanged.
\<close>

lemma translateText_alignment:
  assumes sent: "nonEmptyEntries texts \<noteq> []"
    and call: "client s (chatRequest model customPrompt targetLanguage
                 (map snd (nonEmptyEntries texts))) = (Inr (content # others), s')"
  shows "(length (Split content newline) \<noteq> length (nonEmptyEntries texts) \<longrightarrow>
            translateText client s texts targetLanguage customPrompt model =
              (Inl (TranslationMismatch (length (Split content newline))
                      (length (nonEmptyEntries texts))), s'))
       \<and> (length (Split content newline) = length (nonEmptyEntries texts) \<longrightarrow>
            (\<exists>result. translateText client s texts targetLanguage customPrompt model
                         = (Inr result, s')
               \<and> length result = length texts
               \<and> (\<forall>j < length (nonEmptyEntries texts).
                     result ! fst (nonEmptyEntries texts ! j) =
                       cleanTranslation (cleanTranslation (Split content newline ! j)))
               \<and> (\<forall>i < length texts. TrimSpace (texts ! i) = [] \<longrightarrow> result ! i = texts ! i)))"
proof -
  let ?ne = "nonEmptyEntries texts"
  let ?lines = "Split content newline"
  have texts: "texts \<noteq> []"
    using sent by (auto simp: nonEmptyEntries_def)
  have mismatch: "translateText client s texts targetLanguage customPrompt model =
      (Inl (TranslationMismatch (length ?lines) (length ?ne)), s')"
    if "length ?lines \<noteq> length ?ne"
    using that sent texts call by (simp add: translateText_def)
  let ?result = "placeTranslations (map fst ?ne) (map cleanTranslation ?lines) texts"
  have match: "translateText client s texts targetLanguage customPrompt model = (Inr ?result, s')"
    if "length ?lines = length ?ne"
    using that sent texts call by (simp add: translateText_def)
  have len: "length ?result = length texts"
    by (rule placeTranslations_length)
  have placed: "?result ! fst (?ne ! j) = cleanTranslation (cleanTranslation (?lines ! j))"
    if eq: "length ?lines = length ?ne" and j: "j < length ?ne" for j
  proof -
    have "?result ! (map fst ?ne ! j) = cleanTranslation (map cleanTranslation ?lines ! j)"
    proof (rule placeTranslations_nth)
      show "distinct (map fst ?ne)" by (rule nonEmptyEntries_fst_distinct)
      show "length (map fst ?ne) = length (map cleanTranslation ?lines)" using eq by simp
      show "\<forall>i\<in>set (map fst ?ne). i < length texts" by (auto simp: nonEmptyEntries_mem)
      show "j < length (map fst ?ne)" using j by simp
    qed
    then show ?thesis using j eq by simp
  qed
  have kept: "?result ! i = texts ! i" if "TrimSpace (texts ! i) = []" for i
    using that by (intro placeTranslations_other blank_not_index)
  show ?thesis
    using mismatch match len placed kept by auto
qed

section \<open>Properties of the string functions\<close>


lemma ReplaceAll_Nil: "old \<noteq> [] \<Longrightarrow> ReplaceAll [] old new = []"
  by (cases old) simp_all

lemma ReplaceAll_Cons:
  "old \<noteq> [] \<Longrightarrow> ReplaceAll (x # xs) old new =
     (if prefix old (x # xs) then new @ ReplaceAll (drop (length old) (x # xs)) old new
      else x # ReplaceAll xs old new)"
  by (cases old) simp_all

lemma placeholder_not_Nil: "newlinePlaceholder \<noteq> []"
  by (simp add: newlinePlaceholder_def)

lemma placeholder_hd: "\<exists>cs. newlinePlaceholder = CHR ''{'' # cs"
  by (simp add: newlinePlaceholder_def)

lemma prefix_placeholder_hd: "prefix newlinePlaceholder (x # xs) \<Longrightarrow> x = CHR ''{''"
  by (simp add: newlinePlaceholder_def)

lemma newline_notin_placeholder: "CHR 0x0A \<notin> set newlinePlaceholder"
  by (simp add: newlinePlaceholder_def)

lemma protect_Nil: "protect [] = []"
  by (simp add: newline_def)

lemma protect_Cons:
  "protect (x # xs) =
     (if x = CHR 0x0A then newlinePlaceholder @ protect xs else x # protect xs)"
  by (simp add: newline_def)

lemma newline_notin_protect: "CHR 0x0A \<notin> set (protect v)"
  by (induction v) (simp_all add: protect_Nil protect_Cons newline_notin_placeholder)

lemma set_protect: "set v - {CHR 0x0A} \<subseteq> set (protect v)"
  by (induction v) (auto simp: protect_Nil protect_Cons)

lemma protect_no_newline: "CHR 0x0A \<notin> set v \<Longrightarrow> protect v = v"
  by (induction v) (auto simp: protect_Nil protect_Cons)

lemma brace_in_placeholder: "CHR ''{'' \<in> set newlinePlaceholder"
  by (simp add: newlinePlaceholder_def)

lemma brace_in_protect: "CHR 0x0A \<in> set v \<Longrightarrow> CHR ''{'' \<in> set (protect v)"
  by (induction v) (auto simp: protect_Nil protect_Cons brace_in_placeholder)

lemma unprotect_Nil: "unprotect [] = []"
  by (simp add: ReplaceAll_Nil placeholder_not_Nil)

lemma unprotect_Cons:
  "unprotect (x # xs) =
     (if prefix newlinePlaceholder (x # xs)
      then newline @ unprotect (drop (length newlinePlaceholder) (x # xs))
      else x # unprotect xs)"
  by (simp add: ReplaceAll_Cons placeholder_not_Nil)

lemma unprotect_placeholder: "unprotect (newlinePlaceholder @ r) = newline @ unprotect r"
proof -
  obtain c cs where ph: "newlinePlaceholder = c # cs"
    using placeholder_hd by blast
  have "unprotect (c # cs @ r) = newline @ unprotect (drop (length newlinePlaceholder) (c # cs @ r))"
    unfolding unprotect_Cons by (simp add: ph)
  then show ?thesis by (simp add: ph)
qed

lemma unprotect_no_brace: "CHR ''{'' \<notin> set s \<Longrightarrow> unprotect s = s"
proof (induction s)
  case Nil
  then show ?case by (simp add: unprotect_Nil)
next
  case (Cons x xs)
  then have "\<not> prefix newlinePlaceholder (x # xs)"
    using prefix_placeholder_hd [of x xs] by auto
  then show ?case using Cons by (simp add: unprotect_Cons)
qed

text \<open>The placeholder has no border: only itself is both a prefix and a suffix of it.\<close>

lemma placeholder_unbordered:
  assumes "suffix w newlinePlaceholder" and "prefix w newlinePlaceholder" and "w \<noteq> []"
  shows "w = newlinePlaceholder"
proof -
  have "\<forall>w \<in> set (suffixes newlinePlaceholder).
          prefix w newlinePlaceholder \<longrightarrow> w = [] \<or> w = newlinePlaceholder"
    by (simp add: newlinePlaceholder_def)
  then show ?thesis using assms by (auto simp del: in_set_suffixes simp: in_set_suffixes [symmetric])
qed

lemma prefix_protect:
  assumes "prefix q (protect v)" and "q \<noteq> []"
    and "length q \<le> length newlinePlaceholder"
  shows "prefix q v \<or>
    (\<exists>a w. q = a @ w \<and> w \<noteq> [] \<and> prefix (a @ [CHR 0x0A]) v \<and> prefix w newlinePlaceholder)"
  using assms
proof (induction v arbitrary: q)
  case Nil
  then show ?case by (simp add: protect_Nil)
next
  case (Cons x xs)
  show ?case
  proof (cases "x = CHR 0x0A")
    case True
    with Cons.prems have "prefix q (newlinePlaceholder @ protect xs)"
      by (simp add: protect_Cons)
    with Cons.prems have "prefix q newlinePlaceholder"
      by (auto simp: prefix_append dest: prefix_length_le)
    with Cons.prems True have "q = [] @ q \<and> q \<noteq> [] \<and> prefix ([] @ [CHR 0x0A]) (x # xs)
        \<and> prefix q newlinePlaceholder"
      by simp
    then show ?thesis by blast
  next
    case False
    with Cons.prems obtain q' where q: "q = x # q'" and q': "prefix q' (protect xs)"
      by (auto simp: protect_Cons prefix_Cons)
    show ?thesis
    proof (cases "q' = []")
      case True
      then show ?thesis by (simp add: q)
    next
      case nonempty: False
      from Cons.prems have "length q' \<le> length newlinePlaceholder" by (simp add: q)
      from Cons.IH [OF q' nonempty this]
      show ?thesis
      proof
        assume "prefix q' xs"
        then show ?thesis by (simp add: q)
      next
        assume "\<exists>a w. q' = a @ w \<and> w \<noteq> [] \<and> prefix (a @ [CHR 0x0A]) xs
            \<and> prefix w newlinePlaceholder"
        then obtain a w where "q' = a @ w" "w \<noteq> []" "prefix (a @ [CHR 0x0A]) xs"
            "prefix w newlinePlaceholder"
          by blast
        then have "q = (x # a) @ w \<and> w \<noteq> [] \<and> prefix ((x # a) @ [CHR 0x0A]) (x # xs)
            \<and> prefix w newlinePlaceholder"
          by (simp add: q)
        then show ?thesis by blast
      qed
    qed
  qed
qed

lemma placeholder_prefix_protect:
  assumes "prefix newlinePlaceholder (protect (x # xs))" and "x \<noteq> CHR 0x0A"
  shows "prefix newlinePlaceholder (x # xs)"
proof -
  from prefix_protect [OF assms(1) placeholder_not_Nil order_refl]
  show ?thesis
  proof
    assume "prefix newlinePlaceholder (x # xs)"
    then show ?thesis .
  next
    assume "\<exists>a w. newlinePlaceholder = a @ w \<and> w \<noteq> [] \<and> prefix (a @ [CHR 0x0A]) (x # xs)
        \<and> prefix w newlinePlaceholder"
    then obtain a w where ph: "newlinePlaceholder = a @ w" and w: "w \<noteq> []"
        and a: "prefix (a @ [CHR 0x0A]) (x # xs)" and pw: "prefix w newlinePlaceholder"
      by blast
    have "suffix w newlinePlaceholder"
      by (metis ph suffix_def)
    then have "w = newlinePlaceholder"
      using pw w by (rule placeholder_unbordered)
    with ph have "a = []" by simp
    with a assms(2) show ?thesis by simp
  qed
qed

lemma newline_append: "newline @ r = CHR 0x0A # r"
  by (simp add: newline_def)

lemma unprotect_protect:
  "\<not> sublist newlinePlaceholder v \<Longrightarrow> unprotect (protect v) = v"
proof (induction v)
  case Nil
  then show ?case by (simp add: protect_Nil unprotect_Nil)
next
  case (Cons x xs)
  then have no: "\<not> prefix newlinePlaceholder (x # xs)" and IH: "unprotect (protect xs) = xs"
    by (auto simp: sublist_Cons_right)
  show ?case
  proof (cases "x = CHR 0x0A")
    case True
    then show ?thesis
      by (simp add: protect_Cons unprotect_placeholder IH newline_append)
  next
    case False
    with no have "\<not> prefix newlinePlaceholder (protect (x # xs))"
      using placeholder_prefix_protect by blast
    then have "\<not> prefix newlinePlaceholder (x # protect xs)"
      using False by (simp add: protect_Cons)
    then show ?thesis
      using False by (simp add: protect_Cons unprotect_Cons IH)
  qed
qed

lemma prefix_unprotect:
  "CHR 0x0A \<notin> set p \<Longrightarrow> prefix p (unprotect s) \<Longrightarrow> prefix p s"
proof (induction s arbitrary: p)
  case Nil
  then show ?case by (simp add: unprotect_Nil)
next
  case (Cons x xs)
  show ?case
  proof (cases p)
    case Nil
    then show ?thesis by simp
  next
    case (Cons a p')
    show ?thesis
    proof (cases "prefix newlinePlaceholder (x # xs)")
      case True
      with Cons.prems(2) have "prefix p (newline @ unprotect (drop (length newlinePlaceholder) (x # xs)))"
        by (simp add: unprotect_Cons)
      with Cons.prems(1) Cons show ?thesis
        by (simp add: newline_append prefix_Cons)
    next
      case False
      with Cons.prems(2) have "prefix p (x # unprotect xs)"
        by (simp add: unprotect_Cons)
      with Cons have "a = x" and "prefix p' (unprotect xs)"
        by simp_all
      moreover have "CHR 0x0A \<notin> set p'"
        using Cons.prems(1) Cons by simp
      ultimately show ?thesis
        using Cons.IH [of p'] Cons by simp
    qed
  qed
qed

lemma no_placeholder_unprotect: "\<not> sublist newlinePlaceholder (unprotect s)"
proof (induction s rule: length_induct)
  case (1 s)
  show ?case
  proof (cases s)
    case Nil
    then show ?thesis by (simp add: unprotect_Nil placeholder_not_Nil)
  next
    case (Cons x xs)
    show ?thesis
    proof (cases "prefix newlinePlaceholder (x # xs)")
      case True
      let ?r = "drop (length newlinePlaceholder) (x # xs)"
      have "length ?r < length s"
        using Cons placeholder_not_Nil by simp
      with 1 have "\<not> sublist newlinePlaceholder (unprotect ?r)" by blast
      moreover have "\<not> prefix newlinePlaceholder (CHR 0x0A # unprotect ?r)"
        using prefix_placeholder_hd by fastforce
      ultimately show ?thesis
        using True Cons by (simp add: unprotect_Cons newline_append sublist_Cons_right)
    next
      case False
      have "\<not> sublist newlinePlaceholder (unprotect xs)"
        using 1 Cons by simp
      moreover have "\<not> prefix newlinePlaceholder (x # unprotect xs)"
      proof
        assume "prefix newlinePlaceholder (x # unprotect xs)"
        then have "prefix newlinePlaceholder (unprotect (x # xs))"
          using False by (simp add: unprotect_Cons)
        then have "prefix newlinePlaceholder (x # xs)"
          using newline_notin_placeholder by (rule prefix_unprotect [rotated])
        with False show False by simp
      qed
      ultimately show ?thesis
        using False Cons by (simp add: unprotect_Cons sublist_Cons_right)
    qed
  qed
qed

lemma Split_newline_Nil: "Split [] newline = [[]]"
  by (simp add: newline_def)

lemma Split_newline_Cons:
  "Split (x # xs) newline =
     (if x = CHR 0x0A then [] # Split xs newline
      else (case Split xs newline of p # ps \<Rightarrow> (x # p) # ps))"
  by (simp add: newline_def)

lemma Split_not_Nil: "Split s newline \<noteq> []"
  by (induction s) (auto simp: Split_newline_Nil Split_newline_Cons split: list.splits)

lemma Split_append:
  "CHR 0x0A \<notin> set t \<Longrightarrow>
     Split (t @ r) newline = (t @ hd (Split r newline)) # tl (Split r newline)"
proof (induction t)
  case Nil
  then show ?case using Split_not_Nil [of r] by simp
next
  case (Cons x t)
  then show ?case
    by (auto simp: Split_newline_Cons split: list.splits)
qed

lemma Split_Join:
  assumes "ts \<noteq> []" and "\<forall>t\<in>set ts. CHR 0x0A \<notin> set t"
  shows "Split (Join ts newline) newline = ts"
  using assms
proof (induction ts newline rule: Join.induct)
  case 1
  then show ?case by simp
next
  case (2 x)
  then show ?case
    using Split_append [of x "[]"] by (simp add: Split_newline_Nil)
next
  case (3 x y ys)
  then have "Split (Join (y # ys) newline) newline = y # ys" by simp
  then have "Split (x @ CHR 0x0A # Join (y # ys) newline) newline = x # y # ys"
    using 3 Split_append [of x "CHR 0x0A # Join (y # ys) newline"]
    by (simp add: Split_newline_Cons)
  then show ?case by (simp add: newline_append)
qed


lemma brace_not_space: "CHR ''{'' \<notin> spaceBytes"
  by (simp add: spaceBytes_def whiteSpace_def)

lemma leadingSpace_take:
  assumes "leadingSpace s \<noteq> 0"
  shows "set (take (leadingSpace s) s) \<subseteq> spaceBytes"
proof -
  from assms obtain w where w: "find (\<lambda>w. prefix w s) whiteSpace = Some w"
    and n: "leadingSpace s = length w"
    by (auto simp: leadingSpace_def split: option.splits)
  from w have "w \<in> set whiteSpace" and "prefix w s"
    by (auto simp: find_Some_iff)
  then have "take (length w) s = w" and "set w \<subseteq> spaceBytes"
    by (auto simp: prefix_def spaceBytes_def)
  then show ?thesis by (simp add: n)
qed

lemma trailingSpace_drop:
  assumes "trailingSpace s \<noteq> 0"
  shows "set (drop (length s - trailingSpace s) s) \<subseteq> spaceBytes"
proof -
  from assms obtain w where w: "find (\<lambda>w. suffix w s) whiteSpace = Some w"
    and n: "trailingSpace s = length w"
    by (auto simp: trailingSpace_def split: option.splits)
  from w have "w \<in> set whiteSpace" and "suffix w s"
    by (auto simp: find_Some_iff)
  then have "drop (length s - length w) s = w" and "set w \<subseteq> spaceBytes"
    by (auto simp: suffix_def spaceBytes_def)
  then show ?thesis by (simp add: n)
qed

lemma set_TrimLeftSpace: "set s \<subseteq> set (TrimLeftSpace s) \<union> spaceBytes"
proof (induction s rule: TrimLeftSpace.induct)
  case (1 s)
  show ?case
  proof (cases "leadingSpace s = 0")
    case True
    then show ?thesis by (simp add: TrimLeftSpace.simps)
  next
    case False
    have "set s = set (take (leadingSpace s) s) \<union> set (drop (leadingSpace s) s)"
      by (metis append_take_drop_id set_append)
    also have "\<dots> \<subseteq> spaceBytes \<union> (set (TrimLeftSpace (drop (leadingSpace s) s)) \<union> spaceBytes)"
      using leadingSpace_take [OF False] 1 [OF False] by blast
    finally show ?thesis
      using False by (subst TrimLeftSpace.simps) auto
  qed
qed

lemma set_TrimRightSpace: "set s \<subseteq> set (TrimRightSpace s) \<union> spaceBytes"
proof (induction s rule: TrimRightSpace.induct)
  case (1 s)
  show ?case
  proof (cases "trailingSpace s = 0")
    case True
    then show ?thesis by (simp add: TrimRightSpace.simps)
  next
    case False
    let ?n = "length s - trailingSpace s"
    have "set s = set (take ?n s) \<union> set (drop ?n s)"
      by (metis append_take_drop_id set_append)
    also have "\<dots> \<subseteq> (set (TrimRightSpace (take ?n s)) \<union> spaceBytes) \<union> spaceBytes"
      using trailingSpace_drop [OF False] 1 [OF False] by blast
    finally show ?thesis
      using False by (subst TrimRightSpace.simps) auto
  qed
qed

lemma blank_bytes: "TrimSpace s = [] \<Longrightarrow> set s \<subseteq> spaceBytes"
  using set_TrimLeftSpace [of s] set_TrimRightSpace [of "TrimLeftSpace s"]
  by (auto simp: TrimSpace_def)

lemma blank_no_brace: "TrimSpace s = [] \<Longrightarrow> CHR ''{'' \<notin> set s"
  using blank_bytes brace_not_space by blast

text \<open>A protected value that is blank is the value itself, and unprotecting gives it back.\<close>

lemma blank_protect:
  assumes "TrimSpace (protect v) = []"
  shows "protect v = v" and "unprotect (protect v) = v" and "CHR 0x0A \<notin> set v"
proof -
  have nb: "CHR ''{'' \<notin> set (protect v)"
    using assms by (rule blank_no_brace)
  then show nl: "CHR 0x0A \<notin> set v"
    using brace_in_protect by blast
  then show pv: "protect v = v"
    by (rule protect_no_newline)
  show "unprotect (protect v) = v"
    using nb pv unprotect_no_brace by simp
qed

section \<open>The batch translator under the identity stub\<close>

lemma translateText_identity:
  assumes "\<forall>t\<in>set texts. CHR 0x0A \<notin> set t"
  shows "translateText identityClient s texts targetLanguage customPrompt model =
           (Inr (map echoed texts), s)"
proof (cases "texts = []")
  case True
  then show ?thesis by (simp add: translateText_def)
next
  case False
  let ?ne = "nonEmptyEntries texts"
  show ?thesis
  proof (cases "?ne = []")
    case True
    have "TrimSpace (texts ! i) = []" if "i < length texts" for i
    proof (rule ccontr)
      assume "TrimSpace (texts ! i) \<noteq> []"
      with that have "(i, texts ! i) \<in> set ?ne" by (simp add: nonEmptyEntries_mem)
      with True show False by simp
    qed
    then have "\<forall>t\<in>set texts. TrimSpace t = []"
      by (auto simp: in_set_conv_nth)
    then have "map echoed texts = texts"
      by (simp add: echoed_def map_idI)
    then show ?thesis
      using True False by (simp add: translateText_def)
  next
    case ne: False
    have "\<forall>t\<in>set (map snd ?ne). CHR 0x0A \<notin> set t"
      using assms by (auto simp: nonEmptyEntries_mem)
    then have split: "Split (Join (map snd ?ne) newline) newline = map snd ?ne"
      using ne by (intro Split_Join) auto
    let ?result = "placeTranslations (map fst ?ne) (map cleanTranslation (map snd ?ne)) texts"
    have run: "translateText identityClient s texts targetLanguage customPrompt model =
        (Inr ?result, s)"
      using False ne split
      by (simp add: translateText_def identityClient_def chatRequest_def)
    have "?result = map echoed texts"
    proof (rule nth_equalityI)
      show "length ?result = length (map echoed texts)"
        by (simp add: placeTranslations_length)
    next
      fix i assume "i < length ?result"
      then have i: "i < length texts" by (simp add: placeTranslations_length)
      show "?result ! i = map echoed texts ! i"
      proof (cases "TrimSpace (texts ! i) = []")
        case True
        then have "?result ! i = texts ! i"
          by (intro placeTranslations_other blank_not_index)
        then show ?thesis
          using i True by (simp add: echoed_def)
      next
        case False
        with i have "(i, texts ! i) \<in> set ?ne" by (simp add: nonEmptyEntries_mem)
        then obtain j where j: "j < length ?ne" and at: "?ne ! j = (i, texts ! i)"
          by (auto simp: in_set_conv_nth)
        have "?result ! (map fst ?ne ! j) = cleanTranslation (map cleanTranslation (map snd ?ne) ! j)"
        proof (rule placeTranslations_nth)
          show "distinct (map fst ?ne)" by (rule nonEmptyEntries_fst_distinct)
          show "length (map fst ?ne) = length (map cleanTranslation (map snd ?ne))" by simp
          show "\<forall>i\<in>set (map fst ?ne). i < length texts" by (auto simp: nonEmptyEntries_mem)
          show "j < length (map fst ?ne)" using j by simp
        qed
        then have "?result ! i = cleanTranslation (cleanTranslation (texts ! i))"
          using j at by simp
        then show ?thesis
          using i False by (simp add: echoed_def)
      qed
    qed
    with run show ?thesis by simp
  qed
qed

lemma storeBatch_Nil: "storeBatch [] [] td = td"
  by (simp add: storeBatch_def)

lemma storeBatch_snoc:
  "length bks = length r \<Longrightarrow>
     storeBatch (bks @ [k]) (r @ [x]) td = Set (storeBatch bks r td) k (unprotect x)"
  by (simp add: storeBatch_def)

text \<open>Setting fresh, distinct keys one after the other.\<close>

lemma fold_Set:
  assumes "distinct ks" and "set ks \<inter> dom (values' td) = {}"
  shows "fold (\<lambda>k td. Set td k (f k)) ks td =
     \<lparr>keys = keys td @ ks,
      values' = (\<lambda>k. if k \<in> set ks then Some (f k) else values' td k)\<rparr>"
  using assms
proof (induction ks arbitrary: td)
  case Nil
  then show ?case by simp
next
  case (Cons k ks)
  have fresh: "values' td k = None" using Cons.prems by auto
  have "distinct ks" and "set ks \<inter> dom (values' (Set td k (f k))) = {}"
    using Cons.prems by (auto simp: values_Set)
  from Cons.IH [OF this] show ?case
    using Cons.prems fresh by (auto simp: keys_Set_new values_Set fun_eq_iff)
qed

text \<open>The batch loop under the identity stub.\<close>

lemma batchLoop_identity:
  assumes "length batch = length bks" and "\<forall>t\<in>set batch. CHR 0x0A \<notin> set t"
  shows "\<exists>td' batch' bks'.
     batchLoop (\<lambda>s texts. translateText identityClient s texts lang cp model)
       batchSize data rest (td, batch, bks) s = (Inr (td', batch', bks'), s)
     \<and> length batch' = length bks' \<and> (\<forall>t\<in>set batch'. CHR 0x0A \<notin> set t)
     \<and> storeBatch bks' (map echoed batch') td' =
         fold (\<lambda>k td. Set td k (unprotect (echoed (protect (fst (Get data k))))))
           rest (storeBatch bks (map echoed batch) td)"
  using assms
proof (induction rest arbitrary: td batch bks)
  case Nil
  then show ?case by simp
next
  case (Cons key rest)
  let ?v = "protect (fst (Get data key))"
  let ?batch = "batch @ [?v]"
  let ?bks = "bks @ [key]"
  let ?tr = "\<lambda>s texts. translateText identityClient s texts lang cp model"
  have len: "length ?batch = length ?bks" using Cons.prems by simp
  have nl: "\<forall>t\<in>set ?batch. CHR 0x0A \<notin> set t"
    using Cons.prems newline_notin_protect by auto
  have stored: "storeBatch ?bks (map echoed batch @ [echoed ?v]) td =
      Set (storeBatch bks (map echoed batch) td) key (unprotect (echoed ?v))"
    using Cons.prems by (simp add: storeBatch_snoc)
  show ?case
  proof (cases "int (length ?batch) = batchSize")
    case True
    have step: "batchLoop ?tr batchSize data (key # rest) (td, batch, bks) s =
        batchLoop ?tr batchSize data rest (storeBatch ?bks (map echoed ?batch) td, [], []) s"
      using True translateText_identity [OF nl, of s lang cp model]
      by (simp add: Let_def)
    from Cons.IH [of "[]" "[]" "storeBatch ?bks (map echoed ?batch) td"]
    show ?thesis
      unfolding step by (simp add: storeBatch_Nil stored)
  next
    case False
    have step: "batchLoop ?tr batchSize data (key # rest) (td, batch, bks) s =
        batchLoop ?tr batchSize data rest (td, ?batch, ?bks) s"
      using False by (simp add: Let_def)
    from Cons.IH [OF len nl, of td]
    show ?thesis
      unfolding step by (simp add: stored)
  qed
qed

text \<open>
  \<^verbatim>\<open>translateJSONValues\<close> under the identity stub: every key of the data, in order, with
  its value protected, echoed and unprotected.
\<close>

lemma translateJSONValues_identity:
  assumes "wf_store data" and "makeslice mem batchSize = None"
  shows "translateJSONValues mem identityClient s data lang batchSize cp model =
     (Inr \<lparr>keys = keys data,
           values' = (\<lambda>k. if k \<in> set (keys data)
                          then Some (unprotect (echoed (protect (fst (Get data k)))))
                          else None)\<rparr>, s)"
proof -
  let ?tr = "\<lambda>s texts. translateText identityClient s texts lang cp model"
  let ?f = "\<lambda>k. unprotect (echoed (protect (fst (Get data k))))"
  obtain td' batch' bks' where
    loop: "batchLoop ?tr batchSize data (keys data) (NewOrderedMap, [], []) s
            = (Inr (td', batch', bks'), s)"
    and len: "length batch' = length bks'" and nl: "\<forall>t\<in>set batch'. CHR 0x0A \<notin> set t"
    and stored: "storeBatch bks' (map echoed batch') td' =
        fold (\<lambda>k td. Set td k (?f k)) (keys data) NewOrderedMap"
    using batchLoop_identity [of "[]" "[]" lang cp model batchSize data "keys data" NewOrderedMap s]
    by (auto simp: storeBatch_Nil)
  have final: "translateJSONValues mem identityClient s data lang batchSize cp model =
      (Inr (storeBatch bks' (map echoed batch') td'), s)"
  proof (cases "batch' = []")
    case True
    with len show ?thesis
      using assms(2) loop by (simp add: translateJSONValues_def storeBatch_Nil)
  next
    case False
    then show ?thesis
      using assms(2) loop translateText_identity [OF nl, of s lang cp model]
      by (simp add: translateJSONValues_def)
  qed
  have "distinct (keys data)" using assms(1) by (simp add: wf_store_def)
  then have "fold (\<lambda>k td. Set td k (?f k)) (keys data) NewOrderedMap =
      \<lparr>keys = keys data,
       values' = (\<lambda>k. if k \<in> set (keys data) then Some (?f k) else None)\<rparr>"
    using fold_Set [of "keys data" NewOrderedMap ?f]
    by (simp add: NewOrderedMap_def cong: if_cong)
  with final stored show ?thesis by simp
qed

lemma whiteSpace_nonempty: "[] \<notin> set whiteSpace"
  by (simp add: whiteSpace_def)

lemma leadingSpace_0_iff: "leadingSpace s = 0 \<longleftrightarrow> (\<forall>w\<in>set whiteSpace. \<not> prefix w s)"
proof (cases "find (\<lambda>w. prefix w s) whiteSpace")
  case None
  then have "\<forall>w\<in>set whiteSpace. \<not> prefix w s"
    by (simp add: find_None_iff)
  moreover have "leadingSpace s = 0"
    using None by (simp add: leadingSpace_def)
  ultimately show ?thesis by simp
next
  case (Some w)
  then have "w \<in> set whiteSpace" and "prefix w s"
    by (auto simp: find_Some_iff)
  then show ?thesis
    using Some whiteSpace_nonempty by (auto simp: leadingSpace_def)
qed

lemma trailingSpace_0_iff: "trailingSpace s = 0 \<longleftrightarrow> (\<forall>w\<in>set whiteSpace. \<not> suffix w s)"
proof (cases "find (\<lambda>w. suffix w s) whiteSpace")
  case None
  then have "\<forall>w\<in>set whiteSpace. \<not> suffix w s"
    by (simp add: find_None_iff)
  moreover have "trailingSpace s = 0"
    using None by (simp add: trailingSpace_def)
  ultimately show ?thesis by simp
next
  case (Some w)
  then have "w \<in> set whiteSpace" and "suffix w s"
    by (auto simp: find_Some_iff)
  then show ?thesis
    using Some whiteSpace_nonempty by (auto simp: trailingSpace_def)
qed

lemma leadingSpace_TrimLeftSpace: "leadingSpace (TrimLeftSpace s) = 0"
  by (induction s rule: TrimLeftSpace.induct) (subst TrimLeftSpace.simps, simp)

lemma trailingSpace_TrimRightSpace: "trailingSpace (TrimRightSpace s) = 0"
  by (induction s rule: TrimRightSpace.induct) (subst TrimRightSpace.simps, simp)

lemma prefix_TrimRightSpace: "prefix (TrimRightSpace s) s"
proof (induction s rule: TrimRightSpace.induct)
  case (1 s)
  show ?case
  proof (cases "trailingSpace s = 0")
    case True
    then show ?thesis by (simp add: TrimRightSpace.simps)
  next
    case False
    then have "prefix (TrimRightSpace (take (length s - trailingSpace s) s))
        (take (length s - trailingSpace s) s)"
      by (rule 1)
    then have "prefix (TrimRightSpace (take (length s - trailingSpace s) s)) s"
      using take_is_prefix prefix_order.trans by blast
    then show ?thesis
      using False by (subst TrimRightSpace.simps) simp
  qed
qed

lemma TrimSpace_idem: "TrimSpace (TrimSpace s) = TrimSpace s"
proof -
  let ?u = "TrimRightSpace (TrimLeftSpace s)"
  have "\<forall>w\<in>set whiteSpace. \<not> prefix w (TrimLeftSpace s)"
    using leadingSpace_TrimLeftSpace leadingSpace_0_iff by blast
  then have "\<forall>w\<in>set whiteSpace. \<not> prefix w ?u"
    using prefix_TrimRightSpace prefix_order.trans by blast
  then have "leadingSpace ?u = 0"
    by (simp add: leadingSpace_0_iff)
  then have "TrimLeftSpace ?u = ?u"
    by (simp add: TrimLeftSpace.simps)
  moreover have "TrimRightSpace ?u = ?u"
    using trailingSpace_TrimRightSpace [of "TrimLeftSpace s"] by (simp add: TrimRightSpace.simps)
  ultimately show ?thesis by (simp add: TrimSpace_def)
qed

lemma echoed_eq: "echoed t = (if TrimSpace t = [] then t else TrimSpace t)"
  by (simp add: echoed_def cleanTranslation_def TrimSpace_idem)

lemma wf_store_Get:
  assumes "wf_store data" and "values' data k = Some v"
  shows "k \<in> set (keys data)" and "fst (Get data k) = v"
  using assms by (auto simp: wf_store_def Get_def)

lemma sublist_protect:
  assumes "sublist newlinePlaceholder v"
  shows "TrimSpace (protect v) \<noteq> []"
proof
  assume "TrimSpace (protect v) = []"
  then have "CHR ''{'' \<notin> set (protect v)" and "protect v = v"
    by (rule blank_no_brace, rule blank_protect)
  then have "CHR ''{'' \<notin> set v" by simp
  moreover have "set newlinePlaceholder \<subseteq> set v"
    using assms by (auto simp: sublist_def)
  ultimately show False
    using brace_in_placeholder by blast
qed

lemma TrimSpace_placeholder: "TrimSpace newlinePlaceholder = newlinePlaceholder"
  by code_simp

text \<open>
  Claim C10. For a well-formed store, a batch size with which the slices of the batch
  are allocated, and the identity stub: a value that contains the placeholder token is
  stored as the value protected,
  trimmed and with every placeholder replaced by a line feed; the stored value contains
  no placeholder, so it differs from the original. The translation is not injective: the
  store that holds the placeholder under a key and the store that holds a line feed under
  it are translated to the same store.
\<close>

theorem placeholder_not_preserved:
  assumes "wf_store data" and "makeslice mem batchSize = None" and "values' data k = Some v"
    and "sublist newlinePlaceholder v"
  shows "(\<exists>td r. translateJSONValues mem identityClient s data lang batchSize cp model = (Inr td, s)
            \<and> values' td k = Some r
            \<and> r = ReplaceAll (TrimSpace (protect v)) newlinePlaceholder newline
            \<and> \<not> sublist newlinePlaceholder r \<and> r \<noteq> v)
    \<and> translateJSONValues mem identityClient s (Set NewOrderedMap k newlinePlaceholder)
          lang batchSize cp model
        = translateJSONValues mem identityClient s (Set NewOrderedMap k newline)
          lang batchSize cp model
    \<and> Set NewOrderedMap k newlinePlaceholder \<noteq> Set NewOrderedMap k newline"
proof (intro conjI)
  let ?r = "unprotect (TrimSpace (protect v))"
  let ?td = "\<lparr>keys = keys data,
      values' = (\<lambda>k. if k \<in> set (keys data)
                     then Some (unprotect (echoed (protect (fst (Get data k))))) else None)\<rparr>"
  have run: "translateJSONValues mem identityClient s data lang batchSize cp model = (Inr ?td, s)"
    using assms(1,2) by (rule translateJSONValues_identity)
  have "values' ?td k = Some ?r"
    using wf_store_Get [OF assms(1,3)] sublist_protect [OF assms(4)] by (simp add: echoed_eq)
  moreover have no: "\<not> sublist newlinePlaceholder ?r"
    by (rule no_placeholder_unprotect)
  moreover have "?r \<noteq> v"
    using no assms(4) by auto
  ultimately show "\<exists>td r. translateJSONValues mem identityClient s data lang batchSize cp model
          = (Inr td, s)
      \<and> values' td k = Some r
      \<and> r = ReplaceAll (TrimSpace (protect v)) newlinePlaceholder newline
      \<and> \<not> sublist newlinePlaceholder r \<and> r \<noteq> v"
    using run by blast
next
  let ?d1 = "Set NewOrderedMap k newlinePlaceholder" and ?d2 = "Set NewOrderedMap k newline"
  have wf: "wf_store ?d1" "wf_store ?d2"
    by (simp_all add: wf_Set wf_NewOrderedMap)
  have k: "keys ?d1 = [k]" "keys ?d2 = [k]" "fst (Get ?d1 k) = newlinePlaceholder"
      "fst (Get ?d2 k) = newline"
    by (simp_all add: Set_def NewOrderedMap_def Get_def)
  have p1: "protect newlinePlaceholder = newlinePlaceholder"
    using newline_notin_placeholder by (rule protect_no_newline)
  have p2: "protect newline = newlinePlaceholder"
    by (simp add: newline_def)
  show "translateJSONValues mem identityClient s ?d1 lang batchSize cp model
      = translateJSONValues mem identityClient s ?d2 lang batchSize cp model"
    unfolding translateJSONValues_identity [OF wf(1) assms(2)]
      translateJSONValues_identity [OF wf(2) assms(2)]
    by (simp add: k p1 p2 cong: if_cong)
next
  have "values' (Set NewOrderedMap k newlinePlaceholder) k \<noteq> values' (Set NewOrderedMap k newline) k"
    by (simp add: values_Set newline_def newlinePlaceholder_def)
  then show "Set NewOrderedMap k newlinePlaceholder \<noteq> Set NewOrderedMap k newline"
    by auto
qed

text \<open>
  The claim at the store \<open>{a: x{{NEWLINE_PLACEHOLDER}}y}\<close>: the value stored is \<open>x\<close>, a line
  feed, \<open>y\<close>.
\<close>

theorem placeholder_not_preserved_witness:
  "wf_store \<lparr>keys = [''a''], values' = [''a'' \<mapsto> ''x{{NEWLINE_PLACEHOLDER}}y'']\<rparr>
   \<and> sublist newlinePlaceholder ''x{{NEWLINE_PLACEHOLDER}}y''
   \<and> (\<exists>td. translateJSONValues 1073741824 identityClient ()
            \<lparr>keys = [''a''], values' = [''a'' \<mapsto> ''x{{NEWLINE_PLACEHOLDER}}y'']\<rparr>
            ''French'' 100 [] ''gpt'' = (Inr td, ())
          \<and> values' td ''a'' = Some (''x'' @ newline @ ''y''))"
proof -
  let ?data = "\<lparr>keys = [''a''], values' = [''a'' \<mapsto> ''x{{NEWLINE_PLACEHOLDER}}y'']\<rparr>"
  have wf: "wf_store ?data"
    by (auto simp: wf_store_def)
  have size: "makeslice 1073741824 100 = None"
    by (simp add: makeslice_def stringSize_def maxAlloc_def)
  have v: "values' ?data ''a'' = Some ''x{{NEWLINE_PLACEHOLDER}}y''" by simp
  have sub: "sublist newlinePlaceholder ''x{{NEWLINE_PLACEHOLDER}}y''"
    by code_simp
  have r: "ReplaceAll (TrimSpace (protect ''x{{NEWLINE_PLACEHOLDER}}y'')) newlinePlaceholder newline
      = ''x'' @ newline @ ''y''"
    by code_simp
  show ?thesis
    using wf sub r placeholder_not_preserved [OF wf size v sub, of "()" "''French''" "[]" "''gpt''"]
    by auto
qed

section \<open>The batch translator under any client\<close>

lemma translateText_ok:
  assumes "translateText client s texts lang cp model = (Inr r, s')"
  shows "length r = length texts"
    and "\<And>i. TrimSpace (texts ! i) = [] \<Longrightarrow> r ! i = texts ! i"
proof -
  have shape: "r = [] \<and> texts = [] \<or> r = texts \<or>
      (\<exists>ts. r = placeTranslations (map fst (nonEmptyEntries texts)) ts texts)"
    using assms
    by (auto simp: translateText_def Let_def split: if_splits prod.splits sum.splits list.splits)
  then show "length r = length texts"
    by (auto simp: placeTranslations_length)
  show "r ! i = texts ! i" if "TrimSpace (texts ! i) = []" for i
    using shape placeTranslations_other [OF blank_not_index [OF that]] by auto
qed

lemma storeBatch_Cons:
  "storeBatch (k # bks) (x # r) td = storeBatch bks r (Set td k (unprotect x))"
  by (simp add: storeBatch_def)

lemma storeBatch_fresh:
  assumes "length bks = length r" and "wf_store td" and "distinct bks"
    and "set bks \<inter> set (keys td) = {}"
  shows "wf_store (storeBatch bks r td)
    \<and> keys (storeBatch bks r td) = keys td @ bks
    \<and> (\<forall>i<length bks. values' (storeBatch bks r td) (bks ! i) = Some (unprotect (r ! i)))
    \<and> (\<forall>k. k \<notin> set bks \<longrightarrow> values' (storeBatch bks r td) k = values' td k)"
  using assms
proof (induction bks r arbitrary: td rule: list_induct2)
  case Nil
  then show ?case by (simp add: storeBatch_Nil)
next
  case (Cons k bks x r)
  let ?td = "Set td k (unprotect x)"
  have fresh: "values' td k = None"
    using Cons.prems by (auto simp: wf_store_def)
  have wf: "wf_store ?td" using Cons.prems by (simp add: wf_Set)
  have keys: "keys ?td = keys td @ [k]" using fresh by (simp add: keys_Set_new)
  have "distinct bks" and "set bks \<inter> set (keys ?td) = {}"
    using Cons.prems by (auto simp: keys)
  from Cons.IH [OF wf this]
  have IH: "wf_store (storeBatch bks r ?td)"
    "keys (storeBatch bks r ?td) = keys ?td @ bks"
    "\<And>i. i < length bks \<Longrightarrow> values' (storeBatch bks r ?td) (bks ! i) = Some (unprotect (r ! i))"
    "\<And>k. k \<notin> set bks \<Longrightarrow> values' (storeBatch bks r ?td) k = values' ?td k"
    by auto
  have nth: "values' (storeBatch bks r ?td) ((k # bks) ! i) = Some (unprotect ((x # r) ! i))"
    if "i < length (k # bks)" for i
  proof (cases i)
    case 0
    then show ?thesis using Cons.prems IH(4) [of k] by (simp add: values_Set)
  next
    case (Suc j)
    then show ?thesis using that IH(3) [of j] by simp
  qed
  show ?case
    unfolding storeBatch_Cons
    using IH(1,2,4) nth by (auto simp: keys values_Set)
qed




lemma translateText_logged:
  assumes "translateText (logged c) (s, log) texts lang cp model = (res, (s', log'))"
  shows "log' = log \<or>
    (\<exists>resp. log' = log @ [(chatRequest model cp lang (map snd (nonEmptyEntries texts)), resp)]
       \<and> nonEmptyEntries texts \<noteq> []
       \<and> (\<not> answered (chatRequest model cp lang (map snd (nonEmptyEntries texts))) resp \<longrightarrow> isl res))"
proof (cases "texts = [] \<or> nonEmptyEntries texts = []")
  case True
  with assms have "log' = log"
    by (auto simp: translateText_def split: if_splits)
  then show ?thesis by simp
next
  case False
  let ?req = "chatRequest model cp lang (map snd (nonEmptyEntries texts))"
  obtain resp s1 where call: "c s ?req = (resp, s1)"
    by (metis surj_pair)
  then have logged: "logged c (s, log) ?req = (resp, (s1, log @ [(?req, resp)]))"
    by (simp add: logged_def)
  have count: "UserCount ?req = length (nonEmptyEntries texts)"
    by (simp add: chatRequest_def)
  have "log' = log @ [(?req, resp)]"
    using assms False logged
    by (auto simp: translateText_def Let_def split: sum.splits list.splits if_splits)
  moreover have "isl res" if "\<not> answered ?req resp"
    using assms False logged that count
    by (auto simp: translateText_def Let_def answered_def split: sum.splits list.splits if_splits)
  ultimately show ?thesis
    using False by blast
qed

lemma noBlankLine_chatRequest:
  assumes "\<forall>t\<in>set texts. CHR 0x0A \<notin> set t" and "nonEmptyEntries texts \<noteq> []"
  shows "noBlankLine (chatRequest model cp lang (map snd (nonEmptyEntries texts)))"
proof -
  let ?ne = "nonEmptyEntries texts"
  have "\<forall>t\<in>set (map snd ?ne). CHR 0x0A \<notin> set t"
    using assms(1) by (auto simp: nonEmptyEntries_mem)
  then have "Split (Join (map snd ?ne) newline) newline = map snd ?ne"
    using assms(2) by (intro Split_Join) auto
  then show ?thesis
    by (auto simp: noBlankLine_def chatRequest_def nonEmptyEntries_mem)
qed

text \<open>What one call of \<^verbatim>\<open>translateText\<close> adds to the log.\<close>

lemma translateText_log:
  assumes "translateText (logged c) (s, log) texts lang cp model = (res, (s', log'))"
    and "\<forall>t\<in>set texts. CHR 0x0A \<notin> set t"
  shows "\<exists>new. log' = log @ new \<and> (\<forall>(req, resp)\<in>set new. noBlankLine req)
    \<and> (\<not> isl res \<longrightarrow> (\<forall>(req, resp)\<in>set new. answered req resp))"
proof -
  from translateText_logged [OF assms(1)] show ?thesis
  proof
    assume "log' = log"
    then have "log' = log @ []" by simp
    then show ?thesis by fastforce
  next
    assume "\<exists>resp. log' = log @ [(chatRequest model cp lang (map snd (nonEmptyEntries texts)), resp)]
       \<and> nonEmptyEntries texts \<noteq> [] \<and> (\<not> answered (chatRequest model cp lang (map snd (nonEmptyEntries texts))) resp \<longrightarrow> isl res)"
    then obtain resp where
      "log' = log @ [(chatRequest model cp lang (map snd (nonEmptyEntries texts)), resp)]"
      "nonEmptyEntries texts \<noteq> []" "\<not> answered (chatRequest model cp lang (map snd (nonEmptyEntries texts))) resp \<longrightarrow> isl res"
      by blast
    then show ?thesis
      using noBlankLine_chatRequest [OF assms(2), of model cp lang] by fastforce
  qed
qed

lemma batchLoop_log:
  assumes "batchLoop (\<lambda>s t. translateText (logged c) s t lang cp model) batchSize data rest
      (td, batch, bks) (s, log) = (res, (s', log'))"
    and "\<forall>t\<in>set batch. CHR 0x0A \<notin> set t"
  shows "\<exists>new. log' = log @ new \<and> (\<forall>(req, resp)\<in>set new. noBlankLine req)
    \<and> (\<not> isl res \<longrightarrow> (\<forall>(req, resp)\<in>set new. answered req resp))
    \<and> (\<forall>td' batch' bks'. res = Inr (td', batch', bks') \<longrightarrow> (\<forall>t\<in>set batch'. CHR 0x0A \<notin> set t))"
  using assms
proof (induction rest arbitrary: td batch bks s log)
  case Nil
  then have "log' = log @ []" and "res = Inr (td, batch, bks)" by simp_all
  then show ?case using Nil.prems(2) by fastforce
next
  case (Cons key rest)
  let ?tr = "\<lambda>s t. translateText (logged c) s t lang cp model"
  let ?batch = "batch @ [protect (fst (Get data key))]"
  let ?bks = "bks @ [key]"
  have nl: "\<forall>t\<in>set ?batch. CHR 0x0A \<notin> set t"
    using Cons.prems(2) newline_notin_protect by auto
  show ?case
  proof (cases "int (length ?batch) = batchSize")
    case False
    with Cons.prems(1)
    have "batchLoop ?tr batchSize data rest (td, ?batch, ?bks) (s, log) = (res, (s', log'))"
      by (simp add: Let_def)
    from Cons.IH [OF this nl] show ?thesis .
  next
    case True
    obtain r s1 log1 where tr: "?tr (s, log) ?batch = (r, (s1, log1))"
      by (metis surj_pair)
    from translateText_log [OF tr nl] obtain new1 where
      new1: "log1 = log @ new1" "\<forall>(req, resp)\<in>set new1. noBlankLine req"
        "\<not> isl r \<longrightarrow> (\<forall>(req, resp)\<in>set new1. answered req resp)"
      by blast
    show ?thesis
    proof (cases r)
      case (Inl err)
      with Cons.prems(1) True tr have "res = Inl (wrapError TranslatingBatch err)" "log' = log1"
        by (simp_all add: Let_def)
      then show ?thesis using new1 by auto
    next
      case (Inr translatedBatch)
      with Cons.prems(1) True tr
      have "batchLoop ?tr batchSize data rest (storeBatch ?bks translatedBatch td, [], []) (s1, log1)
          = (res, (s', log'))"
        by (simp add: Let_def)
      from Cons.IH [OF this] obtain new2 where
        new2: "log' = log1 @ new2" "\<forall>(req, resp)\<in>set new2. noBlankLine req"
          "\<not> isl res \<longrightarrow> (\<forall>(req, resp)\<in>set new2. answered req resp)"
          "\<forall>td' batch' bks'. res = Inr (td', batch', bks') \<longrightarrow> (\<forall>t\<in>set batch'. CHR 0x0A \<notin> set t)"
        by auto
      have "log' = log @ (new1 @ new2)" using new1(1) new2(1) by simp
      moreover have "\<forall>(req, resp)\<in>set (new1 @ new2). noBlankLine req"
        using new1(2) new2(2) by auto
      moreover have "\<not> isl res \<longrightarrow> (\<forall>(req, resp)\<in>set (new1 @ new2). answered req resp)"
        using new1(3) new2(3) Inr by auto
      ultimately show ?thesis using new2(4) by blast
    qed
  qed
qed

lemma translateJSONValues_log:
  assumes "translateJSONValues mem (logged c) (s, log) data lang batchSize cp model
      = (res, (s', log'))"
  shows "\<exists>new. log' = log @ new \<and> (\<forall>(req, resp)\<in>set new. noBlankLine req)
    \<and> (\<not> isl res \<longrightarrow> (\<forall>(req, resp)\<in>set new. answered req resp))"
proof (cases "makeslice mem batchSize \<noteq> None")
  case True
  with assms have "log' = log @ []" and "isl res"
    by (auto simp: translateJSONValues_def)
  then show ?thesis by fastforce
next
  case False
  let ?tr = "\<lambda>s t. translateText (logged c) s t lang cp model"
  obtain r1 s1 log1 where loop:
    "batchLoop ?tr batchSize data (keys data) (NewOrderedMap, [], []) (s, log) = (r1, (s1, log1))"
    by (metis surj_pair)
  from batchLoop_log [OF loop] obtain new1 where
    new1: "log1 = log @ new1" "\<forall>(req, resp)\<in>set new1. noBlankLine req"
      "\<not> isl r1 \<longrightarrow> (\<forall>(req, resp)\<in>set new1. answered req resp)"
      "\<forall>td' batch' bks'. r1 = Inr (td', batch', bks') \<longrightarrow> (\<forall>t\<in>set batch'. CHR 0x0A \<notin> set t)"
    by auto
  show ?thesis
  proof (cases r1)
    case (Inl err)
    with assms False loop have "res = Inl err" "log' = log1"
      by (simp_all add: translateJSONValues_def)
    then show ?thesis using new1 by auto
  next
    case (Inr vars)
    obtain td1 batch bks where vars: "vars = (td1, batch, bks)"
      by (cases vars) auto
    show ?thesis
    proof (cases "length batch > 0")
      case empty: False
      with assms False loop Inr vars have "res = Inr td1" "log' = log1"
        by (simp_all add: translateJSONValues_def)
      then show ?thesis using new1 Inr by auto
    next
      case True
      obtain r2 s2 log2 where tr: "?tr (s1, log1) batch = (r2, (s2, log2))"
        by (metis surj_pair)
      have "\<forall>t\<in>set batch. CHR 0x0A \<notin> set t"
        using new1(4) Inr vars by simp
      from translateText_log [OF tr this] obtain new2 where
        new2: "log2 = log1 @ new2" "\<forall>(req, resp)\<in>set new2. noBlankLine req"
          "\<not> isl r2 \<longrightarrow> (\<forall>(req, resp)\<in>set new2. answered req resp)"
        by blast
      have fin: "log' = log2" "isl res \<longleftrightarrow> isl r2"
        using assms False loop Inr vars True tr
        by (auto simp: translateJSONValues_def split: sum.splits)
      have "log' = log @ (new1 @ new2)" using new1(1) new2(1) fin by simp
      moreover have "\<forall>(req, resp)\<in>set (new1 @ new2). noBlankLine req"
        using new1(2) new2(2) by auto
      moreover have "\<not> isl res \<longrightarrow> (\<forall>(req, resp)\<in>set (new1 @ new2). answered req resp)"
        using new1(3) new2(3) Inr fin by auto
      ultimately show ?thesis by blast
    qed
  qed
qed

text \<open>The run with the logging client returns what the run with the client returns.\<close>

lemma translateText_logged_result:
  assumes "translateText (logged c) (s, log) texts lang cp model = (res, (s', log'))"
  shows "translateText c s texts lang cp model = (res, s')"
proof (cases "texts = [] \<or> nonEmptyEntries texts = []")
  case True
  with assms show ?thesis
    by (auto simp: translateText_def split: if_splits)
next
  case False
  let ?req = "chatRequest model cp lang (map snd (nonEmptyEntries texts))"
  obtain resp s1 where call: "c s ?req = (resp, s1)"
    by (cases "c s ?req") auto
  then have logged: "logged c (s, log) ?req = (resp, (s1, log @ [(?req, resp)]))"
    by (simp add: logged_def)
  show ?thesis
    using assms False
    unfolding translateText_def Let_def logged call
    by (auto split: sum.splits list.splits if_splits)
qed

lemma batchLoop_logged_result:
  assumes "batchLoop (\<lambda>s t. translateText (logged c) s t lang cp model) batchSize data rest
      vars (s, log) = (res, (s', log'))"
  shows "batchLoop (\<lambda>s t. translateText c s t lang cp model) batchSize data rest vars s
      = (res, s')"
  using assms
proof (induction rest arbitrary: vars s log)
  case Nil
  then show ?case by simp
next
  case (Cons key rest)
  obtain td batch bks where vars: "vars = (td, batch, bks)"
    by (cases vars) auto
  let ?batch = "batch @ [protect (fst (Get data key))]"
  let ?bks = "bks @ [key]"
  show ?case
  proof (cases "int (length ?batch) = batchSize")
    case False
    with Cons.prems have "batchLoop (\<lambda>s t. translateText (logged c) s t lang cp model) batchSize
        data rest (td, ?batch, ?bks) (s, log) = (res, (s', log'))"
      by (simp add: vars Let_def)
    from Cons.IH [OF this] show ?thesis
      using False by (simp add: vars Let_def)
  next
    case True
    obtain r s1 log1 where
      tr: "translateText (logged c) (s, log) ?batch lang cp model = (r, (s1, log1))"
      using prod_cases3 by blast
    note plain = translateText_logged_result [OF tr]
    show ?thesis
    proof (cases r)
      case (Inl e)
      with Cons.prems True tr have "res = Inl (wrapError TranslatingBatch e)" and "s' = s1"
        by (simp_all add: vars Let_def)
      then show ?thesis
        using True plain Inl by (simp add: vars Let_def)
    next
      case (Inr translatedBatch)
      with Cons.prems True tr
      have "batchLoop (\<lambda>s t. translateText (logged c) s t lang cp model) batchSize data rest
          (storeBatch ?bks translatedBatch td, [], []) (s1, log1) = (res, (s', log'))"
        by (simp add: vars Let_def)
      from Cons.IH [OF this] show ?thesis
        using True plain Inr by (simp add: vars Let_def)
    qed
  qed
qed

lemma translateJSONValues_logged_result:
  assumes "translateJSONValues mem (logged c) (s, log) data lang batchSize cp model
      = (res, (s', log'))"
  shows "translateJSONValues mem c s data lang batchSize cp model = (res, s')"
proof (cases "makeslice mem batchSize \<noteq> None")
  case True
  with assms show ?thesis by (auto simp: translateJSONValues_def)
next
  case False
  obtain r1 s1 log1 where loop:
    "batchLoop (\<lambda>s t. translateText (logged c) s t lang cp model) batchSize data (keys data)
       (NewOrderedMap, [], []) (s, log) = (r1, (s1, log1))"
    using prod_cases3 by blast
  note plain = batchLoop_logged_result [OF loop]
  show ?thesis
  proof (cases r1)
    case (Inl e)
    with assms False loop have "res = Inl e" and "s' = s1"
      by (simp_all add: translateJSONValues_def)
    then show ?thesis
      using False plain Inl by (simp add: translateJSONValues_def)
  next
    case (Inr vars)
    obtain td batch bks where vars: "vars = (td, batch, bks)"
      by (cases vars) auto
    show ?thesis
    proof (cases "length batch > 0")
      case empty: False
      with assms False loop Inr vars have "res = Inr td" and "s' = s1"
        by (simp_all add: translateJSONValues_def)
      then show ?thesis
        using False plain Inr vars empty by (simp add: translateJSONValues_def)
    next
      case True
      obtain r2 s2 log2 where
        tr: "translateText (logged c) (s1, log1) batch lang cp model = (r2, (s2, log2))"
        using prod_cases3 by blast
      note plain2 = translateText_logged_result [OF tr]
      have "res = (case r2 of Inl e \<Rightarrow> Inl (wrapError TranslatingFinalBatch e)
                   | Inr tb \<Rightarrow> Inr (storeBatch bks tb td))" and "s' = s2"
        using assms False loop Inr vars True tr
        by (auto simp: translateJSONValues_def split: sum.splits)
      then show ?thesis
        using False plain Inr vars True plain2
        by (auto simp: translateJSONValues_def split: sum.splits)
    qed
  qed
qed




section \<open>The alignment of keys and translated lines\<close>

lemma enumerate_map_upt:
  "enumerate 0 xs = map (\<lambda>i. (i, xs ! i)) [0..<length xs]"
  by (rule nth_equalityI) (simp_all add: nth_enumerate_eq)

lemma filter_nth_upt: "filter P xs = map (nth xs) (filter (\<lambda>i. P (xs ! i)) [0..<length xs])"
proof -
  have "filter P xs = filter P (map (nth xs) [0..<length xs])"
    by (simp add: map_nth)
  also have "\<dots> = map (nth xs) (filter (P \<circ> nth xs) [0..<length xs])"
    by (simp only: filter_map)
  finally show ?thesis by (simp add: comp_def)
qed

lemma nonEmptyEntries_upt:
  "nonEmptyEntries texts =
     map (\<lambda>i. (i, texts ! i)) (filter (\<lambda>i. TrimSpace (texts ! i) \<noteq> []) [0..<length texts])"
  by (simp add: nonEmptyEntries_def enumerate_map_upt filter_map comp_def)

lemma sentKeys_entries:
  assumes "batch = map (\<lambda>k. protect (fst (Get data k))) bks"
  shows "sentKeys data bks = map (\<lambda>(i, t). bks ! i) (nonEmptyEntries batch)"
    and "map (\<lambda>k. protect (fst (Get data k))) (sentKeys data bks) = map snd (nonEmptyEntries batch)"
proof -
  let ?pv = "\<lambda>k. protect (fst (Get data k))"
  let ?is = "filter (\<lambda>i. TrimSpace (batch ! i) \<noteq> []) [0..<length batch]"
  have len: "length batch = length bks" using assms by simp
  have "filter (\<lambda>i. TrimSpace (?pv (bks ! i)) \<noteq> []) [0..<length bks] = ?is"
    unfolding len by (rule filter_cong) (auto simp: assms)
  then have sent: "sentKeys data bks = map (nth bks) ?is"
    unfolding sentKeys_def by (subst filter_nth_upt) simp
  show "sentKeys data bks = map (\<lambda>(i, t). bks ! i) (nonEmptyEntries batch)"
    unfolding sent nonEmptyEntries_upt by (simp add: comp_def)
  have "map ?pv (map (nth bks) ?is) = map (nth batch) ?is"
    using assms by (auto simp: comp_def)
  then show "map ?pv (sentKeys data bks) = map snd (nonEmptyEntries batch)"
    unfolding sent nonEmptyEntries_upt by (simp add: comp_def)
qed

lemma requestLines_append: "requestLines (a @ b) = requestLines a @ requestLines b"
  by (simp add: requestLines_def)

lemma answerLines_append: "answerLines (a @ b) = answerLines a @ answerLines b"
  by (simp add: answerLines_def)

lemma translateText_trace:
  assumes run: "translateText (logged c) (s, log) texts lang cp model = (Inr r, (s', log'))"
    and nl: "\<forall>t\<in>set texts. CHR 0x0A \<notin> set t"
  shows "\<exists>lines. requestLines log' = requestLines log @ map snd (nonEmptyEntries texts)
      \<and> answerLines log' = answerLines log @ lines
      \<and> length lines = length (nonEmptyEntries texts)
      \<and> (\<forall>j<length lines. r ! fst (nonEmptyEntries texts ! j)
             = cleanTranslation (cleanTranslation (lines ! j)))"
proof (cases "nonEmptyEntries texts = []")
  case True
  with run have "log' = log"
    by (auto simp: translateText_def split: if_splits)
  with True show ?thesis by simp
next
  case False
  let ?ne = "nonEmptyEntries texts"
  let ?req = "chatRequest model cp lang (map snd ?ne)"
  have texts: "texts \<noteq> []"
    using False by (auto simp: nonEmptyEntries_def)
  obtain resp s1 where call: "c s ?req = (resp, s1)"
    by (cases "c s ?req") auto
  then have logged: "logged c (s, log) ?req = (resp, (s1, log @ [(?req, resp)]))"
    by (simp add: logged_def)
  from run False texts logged obtain content others where
    resp: "resp = Inr (content # others)" and
    count: "length (Split content newline) = length ?ne"
    by (auto simp: translateText_def Let_def split: sum.splits list.splits if_splits)
  from translateText_alignment [OF False, of "logged c" "(s, log)" model cp lang content others
      "(s1, log @ [(?req, resp)])"] logged resp count run
  have log': "log' = log @ [(?req, resp)]"
    and placed: "\<forall>j<length ?ne. r ! fst (?ne ! j)
        = cleanTranslation (cleanTranslation (Split content newline ! j))"
    by auto
  have "\<forall>t\<in>set (map snd ?ne). CHR 0x0A \<notin> set t"
    using nl by (auto simp: nonEmptyEntries_mem)
  then have "Split (Join (map snd ?ne) newline) newline = map snd ?ne"
    using False by (intro Split_Join) auto
  then have "requestLines log' = requestLines log @ map snd ?ne"
    by (simp add: log' requestLines_append) (simp add: requestLines_def chatRequest_def)
  moreover have "answerLines log' = answerLines log @ Split content newline"
    by (simp add: log' answerLines_append) (simp add: answerLines_def resp)
  ultimately show ?thesis
    using count placed by auto
qed

lemma sentKeys_append: "sentKeys data (a @ b) = sentKeys data a @ sentKeys data b"
  by (simp add: sentKeys_def)

lemma sentKeys_subset: "set (sentKeys data ks) \<subseteq> set ks"
  by (auto simp: sentKeys_def)

lemma traceInvariant_flush:
  assumes inv: "traceInvariant data processed (td, batch, bks) log"
    and run: "translateText (logged c) (s, log) batch lang cp model = (Inr r, (s', log'))"
  shows "traceInvariant data processed (storeBatch bks r td, [], []) log'"
proof -
  let ?pv = "\<lambda>k. protect (fst (Get data k))"
  let ?g = "\<lambda>line. Some (unprotect (cleanTranslation (cleanTranslation line)))"
  let ?ne = "nonEmptyEntries batch"
  let ?td = "storeBatch bks r td"
  from inv have wf: "wf_store td" and keys: "keys td @ bks = processed"
    and dist: "distinct processed" and batch: "batch = map ?pv bks"
    and req: "requestLines log = map ?pv (sentKeys data (keys td))"
    and vals: "map (values' td) (sentKeys data (keys td)) = map ?g (answerLines log)"
    by (auto simp: traceInvariant_def)
  have nl: "\<forall>t\<in>set batch. CHR 0x0A \<notin> set t"
    using batch newline_notin_protect by auto
  have len: "length bks = length r"
    using translateText_ok(1) [OF run] batch by simp
  moreover have "distinct bks" and disj: "set bks \<inter> set (keys td) = {}"
    using dist keys by auto
  ultimately have st: "wf_store ?td" "keys ?td = keys td @ bks"
    "\<And>i. i < length bks \<Longrightarrow> values' ?td (bks ! i) = Some (unprotect (r ! i))"
    "\<And>k. k \<notin> set bks \<Longrightarrow> values' ?td k = values' td k"
    using storeBatch_fresh [OF _ wf, of bks r] by auto
  from translateText_trace [OF run nl] obtain lines where
    req': "requestLines log' = requestLines log @ map snd ?ne"
    and ans': "answerLines log' = answerLines log @ lines"
    and count: "length lines = length ?ne"
    and placed: "\<And>j. j < length lines \<Longrightarrow>
        r ! fst (?ne ! j) = cleanTranslation (cleanTranslation (lines ! j))"
    by blast
  have old: "map (values' ?td) (sentKeys data (keys td)) = map (values' td) (sentKeys data (keys td))"
  proof (rule map_cong [OF refl])
    fix k assume "k \<in> set (sentKeys data (keys td))"
    then have "k \<notin> set bks" using sentKeys_subset [of data "keys td"] disj by auto
    then show "values' ?td k = values' td k" by (rule st(4))
  qed
  have new: "map (values' ?td) (sentKeys data bks) = map ?g lines"
  proof (rule nth_equalityI)
    show "length (map (values' ?td) (sentKeys data bks)) = length (map ?g lines)"
      using count by (simp add: sentKeys_entries(1) [OF batch])
  next
    fix j assume "j < length (map (values' ?td) (sentKeys data bks))"
    then have j: "j < length ?ne"
      by (simp add: sentKeys_entries(1) [OF batch])
    then have "fst (?ne ! j) < length bks"
      using nonEmptyEntries_nth(1) [OF j] batch by simp
    then have "values' ?td (bks ! fst (?ne ! j)) = Some (unprotect (r ! fst (?ne ! j)))"
      by (rule st(3))
    then show "map (values' ?td) (sentKeys data bks) ! j = map ?g lines ! j"
      using j count placed [of j]
      by (simp add: sentKeys_entries(1) [OF batch] case_prod_beta)
  qed
  have "requestLines log' = map ?pv (sentKeys data (keys ?td))"
    using req req' sentKeys_entries(2) [OF batch] by (simp add: st(2) sentKeys_append)
  moreover have "map (values' ?td) (sentKeys data (keys ?td)) = map ?g (answerLines log')"
    using old new vals ans' by (simp add: st(2) sentKeys_append)
  ultimately show ?thesis
    using st(1,2) keys dist by (simp add: traceInvariant_def)
qed

lemma batchLoop_trace:
  assumes "distinct (processed @ rest)"
    and "traceInvariant data processed vars log"
    and "batchLoop (\<lambda>s t. translateText (logged c) s t lang cp model) batchSize data rest vars
           (s, log) = (Inr vars', (s', log'))"
  shows "traceInvariant data (processed @ rest) vars' log'"
  using assms
proof (induction rest arbitrary: processed vars s log)
  case Nil
  then show ?case by simp
next
  case (Cons key rest)
  let ?tr = "\<lambda>s t. translateText (logged c) s t lang cp model"
  obtain td batch bks where vars: "vars = (td, batch, bks)"
    by (cases vars) auto
  let ?batch = "batch @ [protect (fst (Get data key))]"
  let ?bks = "bks @ [key]"
  have inv: "traceInvariant data (processed @ [key]) (td, ?batch, ?bks) log"
    using Cons.prems(1,2) by (auto simp: traceInvariant_def vars)
  have dist: "distinct ((processed @ [key]) @ rest)"
    using Cons.prems(1) by simp
  show ?case
  proof (cases "int (length ?batch) = batchSize")
    case True
    with Cons.prems(3) obtain r s1 log1 where tr: "?tr (s, log) ?batch = (Inr r, (s1, log1))"
      and loop: "batchLoop ?tr batchSize data rest (storeBatch ?bks r td, [], []) (s1, log1)
          = (Inr vars', (s', log'))"
      by (auto simp: vars Let_def split: prod.splits sum.splits)
    have "traceInvariant data (processed @ [key]) (storeBatch ?bks r td, [], []) log1"
      using inv tr by (rule traceInvariant_flush)
    from Cons.IH [OF dist this loop] show ?thesis by simp
  next
    case False
    with Cons.prems(3)
    have loop: "batchLoop ?tr batchSize data rest (td, ?batch, ?bks) (s, log) = (Inr vars', (s', log'))"
      by (simp add: vars Let_def)
    from Cons.IH [OF dist inv loop] show ?thesis by simp
  qed
qed

lemma translateJSONValues_trace:
  assumes "wf_store data"
    and "translateJSONValues mem (logged c) (s, []) data lang batchSize cp model
           = (Inr td, (s', log))"
  shows "keys td = keys data"
    and "requestLines log = map (\<lambda>k. protect (fst (Get data k))) (sentKeys data (keys data))"
    and "map (values' td) (sentKeys data (keys data))
           = map (\<lambda>line. Some (unprotect (cleanTranslation (cleanTranslation line))))
               (answerLines log)"
proof -
  let ?tr = "\<lambda>s t. translateText (logged c) s t lang cp model"
  from assms(2) obtain td1 batch bks s1 log1 where
    loop: "batchLoop ?tr batchSize data (keys data) (NewOrderedMap, [], []) (s, [])
        = (Inr (td1, batch, bks), (s1, log1))"
    and fin: "if length batch > 0
       then (\<exists>r. ?tr (s1, log1) batch = (Inr r, (s', log)) \<and> td = storeBatch bks r td1)
       else td = td1 \<and> log = log1"
    by (auto simp: translateJSONValues_def Let_def
        split: if_splits prod.splits sum.splits option.splits)
  have "traceInvariant data [] (NewOrderedMap, [], []) []"
    by (simp add: traceInvariant_def wf_store_def NewOrderedMap_def sentKeys_def
        requestLines_def answerLines_def)
  moreover have "distinct ([] @ keys data)"
    using assms(1) by (simp add: wf_store_def)
  ultimately have inv: "traceInvariant data ([] @ keys data) (td1, batch, bks) log1"
    using loop by (intro batchLoop_trace [where c = c]) auto
  have "traceInvariant data (keys data) (td, [], []) log"
  proof (cases "length batch > 0")
    case True
    with fin obtain r where tr: "?tr (s1, log1) batch = (Inr r, (s', log))"
      and td: "td = storeBatch bks r td1"
      by auto
    show ?thesis
      unfolding td using inv tr by (intro traceInvariant_flush [where batch = batch]) auto
  next
    case False
    with fin inv show ?thesis by (auto simp: traceInvariant_def)
  qed
  then show "keys td = keys data"
    and "requestLines log = map (\<lambda>k. protect (fst (Get data k))) (sentKeys data (keys data))"
    and "map (values' td) (sentKeys data (keys data))
           = map (\<lambda>line. Some (unprotect (cleanTranslation (cleanTranslation line))))
               (answerLines log)"
    by (auto simp: traceInvariant_def)
qed











lemma protect_eq_Nil: "protect v = [] \<longleftrightarrow> v = []"
  by (cases v) (auto simp: protect_Nil protect_Cons placeholder_not_Nil)

text \<open>
  Claim C7, amended. For a well-formed store, a batch size with which the slices of the
  batch are allocated, and the identity stub: the texts of the requests are in order the
  protected values that are not blank, and none holds a line feed; a value that does not
  contain the placeholder token and whose protected form has no white space at either
  end is sent, unless it is empty, in its protected form (every line feed replaced by the
  placeholder) and is stored unchanged under its key, line feeds included; the translated
  store has the keys of the data in the same order.
\<close>

theorem newline_roundtrip:
  assumes "wf_store data" and "makeslice mem batchSize = None" and "values' data k = Some v"
    and "\<not> sublist newlinePlaceholder v" and "TrimSpace (protect v) = protect v"
  shows "\<exists>td log.
       translateJSONValues mem (logged identityClient) (s, []) data lang batchSize cp model
         = (Inr td, (s, log))
     \<and> translateJSONValues mem identityClient s data lang batchSize cp model = (Inr td, s)
     \<and> requestLines log = map (\<lambda>k. protect (fst (Get data k))) (sentKeys data (keys data))
     \<and> (\<forall>line\<in>set (requestLines log). CHR 0x0A \<notin> set line)
     \<and> (v \<noteq> [] \<longrightarrow> protect v \<in> set (requestLines log))
     \<and> keys td = keys data \<and> values' td k = Some v"
proof -
  let ?td = "\<lparr>keys = keys data,
      values' = (\<lambda>k. if k \<in> set (keys data)
                     then Some (unprotect (echoed (protect (fst (Get data k))))) else None)\<rparr>"
  have run: "translateJSONValues mem identityClient s data lang batchSize cp model = (Inr ?td, s)"
    using assms(1,2) by (rule translateJSONValues_identity)
  obtain res s' log where
    "translateJSONValues mem (logged identityClient) (s, []) data lang batchSize cp model
       = (res, (s', log))"
    using prod_cases3 by blast
  with translateJSONValues_logged_result [OF this] run
  have lrun: "translateJSONValues mem (logged identityClient) (s, []) data lang batchSize cp model
       = (Inr ?td, (s, log))"
    by simp
  have sent: "requestLines log = map (\<lambda>k. protect (fst (Get data k))) (sentKeys data (keys data))"
    using assms(1) lrun by (rule translateJSONValues_trace(2))
  then have nl: "\<forall>line\<in>set (requestLines log). CHR 0x0A \<notin> set line"
    using newline_notin_protect by auto
  have key: "k \<in> set (keys data)" and get: "fst (Get data k) = v"
    using wf_store_Get [OF assms(1,3)] by simp_all
  have "k \<in> set (sentKeys data (keys data))" if "v \<noteq> []"
    using that key get assms(5) by (simp add: sentKeys_def protect_eq_Nil)
  then have there: "protect v \<in> set (requestLines log)" if "v \<noteq> []"
    using that get unfolding sent by force
  have "echoed (protect v) = protect v"
    using assms(5) by (simp add: echoed_eq)
  then have "values' ?td k = Some v"
    using key get unprotect_protect [OF assms(4)] by simp
  with lrun run sent nl there show ?thesis
    by (intro exI [of _ ?td] exI [of _ log]) simp
qed

text \<open>
  The amended claim at the store that holds \<open>x\<close>, a line feed, \<open>y\<close> under \<open>a\<close>.
\<close>

theorem newline_roundtrip_witness:
  "wf_store \<lparr>keys = [''a''], values' = [''a'' \<mapsto> ''x'' @ newline @ ''y'']\<rparr>
   \<and> \<not> sublist newlinePlaceholder (''x'' @ newline @ ''y'')
   \<and> TrimSpace (protect (''x'' @ newline @ ''y'')) = protect (''x'' @ newline @ ''y'')
   \<and> (\<exists>td log. translateJSONValues 1073741824 (logged identityClient) ((), [])
            \<lparr>keys = [''a''], values' = [''a'' \<mapsto> ''x'' @ newline @ ''y'']\<rparr>
            ''French'' 100 [] ''gpt'' = (Inr td, ((), log))
          \<and> requestLines log = [''x{{NEWLINE_PLACEHOLDER}}y'']
          \<and> values' td ''a'' = Some (''x'' @ newline @ ''y''))"
proof -
  let ?data = "\<lparr>keys = [''a''], values' = [''a'' \<mapsto> ''x'' @ newline @ ''y'']\<rparr>"
  have wf: "wf_store ?data"
    by (auto simp: wf_store_def)
  have size: "makeslice 1073741824 100 = None"
    by (simp add: makeslice_def stringSize_def maxAlloc_def)
  have v: "values' ?data ''a'' = Some (''x'' @ newline @ ''y'')" by simp
  have sub: "\<not> sublist newlinePlaceholder (''x'' @ newline @ ''y'')"
    by code_simp
  have trim: "TrimSpace (protect (''x'' @ newline @ ''y'')) = protect (''x'' @ newline @ ''y'')"
    by code_simp
  have sent: "map (\<lambda>k. protect (fst (Get ?data k))) (sentKeys ?data (keys ?data))
      = [''x{{NEWLINE_PLACEHOLDER}}y'']"
    by code_simp
  show ?thesis
    using wf sub trim sent
      newline_roundtrip [OF wf size v sub trim, of "()" "''French''" "[]" "''gpt''"]
    by auto
qed

text \<open>
  Claim C7 as stated fails. Under the identity stub the value \<open>" a\nb"\<close> is stored as
  \<open>"a\nb"\<close>: the leading space is trimmed and the line feed moves from index 2 to index 1.
  The value \<open>"{{NEWLINE_PLACEHOLDER}}\nb"\<close> is stored as \<open>"\n\nb"\<close>: a second line feed
  appears in the place of the token.
\<close>

theorem newline_roundtrip_counterexample:
  "(case fst (translateJSONValues 1073741824 identityClient ()
        \<lparr>keys = [''a''], values' = [''a'' \<mapsto> '' a'' @ newline @ ''b'']\<rparr>
        ''French'' 100 [] ''gpt'') of
      Inr td \<Rightarrow> values' td ''a'' | Inl e \<Rightarrow> None) = Some (''a'' @ newline @ ''b'')
   \<and> (case fst (translateJSONValues 1073741824 identityClient ()
        \<lparr>keys = [''a''], values' = [''a'' \<mapsto> ''{{NEWLINE_PLACEHOLDER}}'' @ newline @ ''b'']\<rparr>
        ''French'' 100 [] ''gpt'') of
      Inr td \<Rightarrow> values' td ''a'' | Inl e \<Rightarrow> None) = Some (newline @ newline @ ''b'')"
  by code_simp

section \<open>Properties of reading and writing documents\<close>

text \<open>The entries after the first, as the loop of \<^verbatim>\<open>readJSONFile\<close> meets them.\<close>

lemma entryLexemes_Cons:
  "entryLexemes sep ((k, v) # es) =
     LString k # sep # LString v # concat (map (\<lambda>(k, v). [Comma, LString k, sep, LString v]) es)"
  by (induction es arbitrary: k v) (auto simp: split_beta)

lemma readEntries_object_rest:
  "readEntries \<lparr>tokenState = tokenObjectComma, tokenStack = stack,
       unread = concat (map (\<lambda>(k, v). [Comma, LString k, Colon, LString v]) es) @ RBrace # trailing\<rparr> om
   = Inr (fold (\<lambda>(k, v) om. Set om k v) es om,
          \<lparr>tokenState = tokenObjectComma, tokenStack = stack, unread = RBrace # trailing\<rparr>)"
proof (induction es arbitrary: om)
  case Nil
  then show ?case by (simp add: readEntries.simps More_def)
next
  case (Cons e es)
  obtain k v where e: "e = (k, v)" by (cases e) auto
  show ?case
    unfolding e
    by (subst readEntries.simps)
      (simp add: More_def Token.simps DecodeString_def tokenPrepareForDecode_def
        tokenValueAllowed_def tokenValueEnd_def Cons.IH)
qed

lemma readEntries_object:
  "readEntries \<lparr>tokenState = tokenObjectStart, tokenStack = stack,
       unread = entryLexemes Colon es @ RBrace # trailing\<rparr> om
   = Inr (fold (\<lambda>(k, v) om. Set om k v) es om,
          \<lparr>tokenState = (if es = [] then tokenObjectStart else tokenObjectComma),
           tokenStack = stack, unread = RBrace # trailing\<rparr>)"
proof (cases es)
  case Nil
  then show ?thesis by (simp add: readEntries.simps More_def)
next
  case (Cons e es')
  obtain k v where e: "e = (k, v)" by (cases e) auto
  show ?thesis
    unfolding Cons e entryLexemes_Cons
    by (subst readEntries.simps)
      (simp add: More_def Token.simps DecodeString_def tokenPrepareForDecode_def
        tokenValueAllowed_def tokenValueEnd_def readEntries_object_rest)
qed

lemma readJSONFile_object:
  assumes "files fs filename = Contents bytes" and "scan bytes = objectLexemes es"
  shows "readJSONFile scan fs filename = Inr (storeOf es)"
  using assms readEntries_object [of "[tokenTopValue]" es "[]" NewOrderedMap]
  by (simp add: readJSONFile_def objectLexemes_def NewDecoder_def Token.simps
      tokenValueAllowed_def storeOf_def)

lemma readEntries_array_rest:
  "readEntries \<lparr>tokenState = tokenArrayComma, tokenStack = stack,
       unread = concat (map (\<lambda>(k, v). [Comma, LString k, Comma, LString v]) es) @ RBracket # trailing\<rparr> om
   = Inr (fold (\<lambda>(k, v) om. Set om k v) es om,
          \<lparr>tokenState = tokenArrayComma, tokenStack = stack, unread = RBracket # trailing\<rparr>)"
proof (induction es arbitrary: om)
  case Nil
  then show ?case by (simp add: readEntries.simps More_def)
next
  case (Cons e es)
  obtain k v where e: "e = (k, v)" by (cases e) auto
  show ?case
    unfolding e
    by (subst readEntries.simps)
      (simp add: More_def Token.simps DecodeString_def tokenPrepareForDecode_def
        tokenOfValue_def tokenValueAllowed_def tokenValueEnd_def Cons.IH)
qed

lemma readEntries_array:
  "readEntries \<lparr>tokenState = tokenArrayStart, tokenStack = stack,
       unread = entryLexemes Comma es @ RBracket # trailing\<rparr> om
   = Inr (fold (\<lambda>(k, v) om. Set om k v) es om,
          \<lparr>tokenState = (if es = [] then tokenArrayStart else tokenArrayComma),
           tokenStack = stack, unread = RBracket # trailing\<rparr>)"
proof (cases es)
  case Nil
  then show ?thesis by (simp add: readEntries.simps More_def)
next
  case (Cons e es')
  obtain k v where e: "e = (k, v)" by (cases e) auto
  show ?thesis
    unfolding Cons e entryLexemes_Cons
    by (subst readEntries.simps)
      (simp add: More_def Token.simps DecodeString_def tokenPrepareForDecode_def
        tokenOfValue_def tokenValueAllowed_def tokenValueEnd_def readEntries_array_rest)
qed

lemma readJSONFile_array:
  assumes "files fs filename = Contents bytes" and "scan bytes = arrayLexemes es"
  shows "readJSONFile scan fs filename = Inr (storeOf es)"
  using assms readEntries_array [of "[tokenTopValue]" es "[]" NewOrderedMap]
  by (simp add: readJSONFile_def arrayLexemes_def NewDecoder_def Token.simps
      tokenValueAllowed_def storeOf_def)

lemma fold_Set_entries:
  assumes "distinct (map fst es)" and "fst ` set es \<inter> dom (values' om) = {}"
  shows "fold (\<lambda>(k, v) om. Set om k v) es om =
     \<lparr>keys = keys om @ map fst es, values' = values' om ++ map_of es\<rparr>"
  using assms
proof (induction es arbitrary: om)
  case Nil
  then show ?case by simp
next
  case (Cons e es)
  obtain k v where e: "e = (k, v)" by (cases e) auto
  have fresh: "values' om k = None" using Cons.prems by (auto simp: e)
  have "distinct (map fst es)" and "fst ` set es \<inter> dom (values' (Set om k v)) = {}"
    using Cons.prems by (auto simp: e values_Set)
  from Cons.IH [OF this] have "fold (\<lambda>(k, v) om. Set om k v) es (Set om k v) =
      \<lparr>keys = keys (Set om k v) @ map fst es, values' = values' (Set om k v) ++ map_of es\<rparr>" .
  moreover have "((values' om)(k \<mapsto> v) ++ map_of es) x = (values' om ++ map_of (e # es)) x" for x
  proof -
    have "k \<notin> fst ` set es" using Cons.prems by (auto simp: e)
    then have "map_of es k = None" by (simp add: map_of_eq_None_iff)
    then show ?thesis
      by (auto simp: e map_add_def split: option.splits)
  qed
  ultimately show ?case
    using fresh by (simp add: e keys_Set_new values_Set fun_eq_iff del: map_of.simps)
qed

lemma storeOf_distinct:
  "distinct (map fst es) \<Longrightarrow> storeOf es = \<lparr>keys = map fst es, values' = map_of es\<rparr>"
  using fold_Set_entries [of es NewOrderedMap]
  by (simp add: storeOf_def NewOrderedMap_def)

lemma encodeEntries_lines:
  assumes "distinct (map fst (done @ es))"
    and "keys data = map fst (done @ es)" and "values' data = map_of (done @ es)"
  shows "encodeEntries jsonEncode data (length done) (map fst es) = Inr (documentLines jsonEncode es)"
  using assms
proof (induction es arbitrary: "done")
  case Nil
  then show ?case by simp
next
  case (Cons e es)
  obtain k v where e: "e = (k, v)" by (cases e) auto
  have "k \<notin> fst ` set done" using Cons.prems(1) by (auto simp: e)
  then have "map_of done k = None" by (simp add: map_of_eq_None_iff)
  then have "map_of (done @ (k, v) # es) k = Some v"
    by (simp add: map_add_def)
  then have v: "fst (Get data k) = v"
    using Cons.prems(3) by (simp add: Get_def e del: map_of_append)
  have rest: "encodeEntries jsonEncode data (Suc (length done)) (map fst es)
      = Inr (documentLines jsonEncode es)"
    using Cons.IH [of "done @ [(k, v)]"] Cons.prems by (simp add: e)
  have last: "int (length done) < int (length (keys data)) - 1 \<longleftrightarrow> es \<noteq> []"
    using Cons.prems(2) by (cases es) simp_all
  show ?case
  proof (cases es)
    case Nil
    then show ?thesis
      using rest v last by (simp add: e encodeJSON_def)
  next
    case (Cons e' es')
    then show ?thesis
      using rest v last by (simp add: e encodeJSON_def)
  qed
qed

lemma writeJSONFile_lines:
  assumes "distinct (map fst es)" and "\<not> mkdirFails fs filename" and "\<not> writeFails fs filename"
  shows "writeJSONFile jsonEncode fs filename \<lparr>keys = map fst es, values' = map_of es\<rparr> =
     (None, fs\<lparr>dirsMadeFor := insert filename (dirsMadeFor fs),
               files := (files fs)(filename :=
                 Contents (''{'' @ newline @ documentLines jsonEncode es @ ''}'' @ newline))\<rparr>)"
  using assms encodeEntries_lines [of "[]" es "\<lparr>keys = map fst es, values' = map_of es\<rparr>" jsonEncode]
  by (simp add: writeJSONFile_def MkdirAllDir_def WriteFile_def)

text \<open>
  Claim C9, amended. For a file whose bytes the scanner reads as the array
  \<open>[1, "v"]\<close> (a number or boolean, then a string), \<^verbatim>\<open>readJSONFile\<close> panics at the
  type assertion on the key token. For a file read as an array of an even number of
  strings, it returns no error: the strings are taken as keys and values in turn.
\<close>

theorem top_level_array:
  assumes "files fs filename = Contents bytes"
  shows "(scan bytes = [LBracket, LScalar, Comma, LString v, RBracket] \<longrightarrow>
            readJSONFile scan fs filename =
              Inl (Panic ''interface conversion: interface {} is not string''))
    \<and> (scan bytes = arrayLexemes es \<longrightarrow> readJSONFile scan fs filename = Inr (storeOf es))"
proof (intro conjI impI)
  assume "scan bytes = [LBracket, LScalar, Comma, LString v, RBracket]"
  then show "readJSONFile scan fs filename =
      Inl (Panic ''interface conversion: interface {} is not string'')"
    using assms
    by (simp add: readJSONFile_def NewDecoder_def Token.simps readEntries.simps More_def
        DecodeString_def tokenPrepareForDecode_def tokenOfValue_def tokenValueAllowed_def
        tokenValueEnd_def)
next
  assume "scan bytes = arrayLexemes es"
  with assms show "readJSONFile scan fs filename = Inr (storeOf es)"
    by (rule readJSONFile_array)
qed

text \<open>
  The amended claim at a file read as \<open>[1, "x"]\<close> and at one read as \<open>["a", "b"]\<close>.
\<close>

theorem top_level_array_witness:
  "files \<lparr>files = (\<lambda>p. Contents ''[1,x]''), dirsMadeFor = {}, mkdirFails = (\<lambda>p. False),
           writeFails = (\<lambda>p. False)\<rparr> ''en.json'' = Contents ''[1,x]''
   \<and> readJSONFile (\<lambda>b. [LBracket, LScalar, Comma, LString ''x'', RBracket])
        \<lparr>files = (\<lambda>p. Contents ''[1,x]''), dirsMadeFor = {}, mkdirFails = (\<lambda>p. False),
         writeFails = (\<lambda>p. False)\<rparr> ''en.json''
      = Inl (Panic ''interface conversion: interface {} is not string'')
   \<and> readJSONFile (\<lambda>b. arrayLexemes [(''a'', ''b'')])
        \<lparr>files = (\<lambda>p. Contents ''[1,x]''), dirsMadeFor = {}, mkdirFails = (\<lambda>p. False),
         writeFails = (\<lambda>p. False)\<rparr> ''en.json''
      = Inr (storeOf [(''a'', ''b'')])"
proof -
  let ?fs = "\<lparr>files = (\<lambda>p. Contents ''[1,x]''), dirsMadeFor = {}, mkdirFails = (\<lambda>p. False),
         writeFails = (\<lambda>p. False)\<rparr>"
  have f: "files ?fs ''en.json'' = Contents ''[1,x]''" by simp
  show ?thesis
    using f top_level_array [OF f, of "\<lambda>b. [LBracket, LScalar, Comma, LString ''x'', RBracket]" "''x''"]
      top_level_array [OF f, of "\<lambda>b. arrayLexemes [(''a'', ''b'')]" _ "[(''a'', ''b'')]"]
    by simp
qed

text \<open>
  Claim C9 as stated fails at its example. For the array \<open>[1]\<close> the key token is the
  number, but the value read that follows finds the closing bracket where a comma must
  be: \<^verbatim>\<open>readJSONFile\<close> returns the error of reading a value before it reaches the type
  assertion, and does not panic.
\<close>

theorem top_level_array_counterexample:
  "readJSONFile (\<lambda>b. [LBracket, LScalar, RBracket])
     \<lparr>files = (\<lambda>p. Contents ''[1]''), dirsMadeFor = {}, mkdirFails = (\<lambda>p. False),
      writeFails = (\<lambda>p. False)\<rparr> ''en.json''
   = Inl ReadingJSONValue"
  by (simp add: readJSONFile_def NewDecoder_def Token.simps readEntries.simps More_def
      DecodeString_def tokenPrepareForDecode_def tokenOfValue_def tokenValueAllowed_def
      tokenValueEnd_def)

text \<open>
  Claim C6, amended. For a file whose bytes the scanner reads as a flat object of
  string entries with pairwise distinct keys, \<^verbatim>\<open>readJSONFile\<close> returns the store that
  holds the entries in the order of the document; and \<^verbatim>\<open>writeJSONFile\<close>, where making
  the directory and writing the file succeed, writes for that store an opening brace,
  one line for each entry in the same order with the same key and value, each encoded
  by the encoder with HTML escaping off, and a closing brace.
\<close>

theorem decode_encode_roundtrip:
  assumes "files fs filename = Contents bytes" and "scan bytes = objectLexemes es"
    and "distinct (map fst es)"
  shows "readJSONFile scan fs filename = Inr \<lparr>keys = map fst es, values' = map_of es\<rparr>
    \<and> (\<not> mkdirFails fs' target \<and> \<not> writeFails fs' target \<longrightarrow>
          writeJSONFile jsonEncode fs' target \<lparr>keys = map fst es, values' = map_of es\<rparr> =
            (None, fs'\<lparr>dirsMadeFor := insert target (dirsMadeFor fs'),
                      files := (files fs')(target :=
                        Contents (''{'' @ newline @ documentLines jsonEncode es
                                  @ ''}'' @ newline))\<rparr>))"
  using readJSONFile_object [where scan = scan, OF assms(1,2)] storeOf_distinct [OF assms(3)]
    writeJSONFile_lines [OF assms(3), of fs' target jsonEncode]
  by simp

text \<open>
  The amended claim at a document of two entries, one value holding HTML markup.
\<close>

theorem decode_encode_roundtrip_witness:
  "files \<lparr>files = (\<lambda>p. Contents ''{}''), dirsMadeFor = {}, mkdirFails = (\<lambda>p. False),
           writeFails = (\<lambda>p. False)\<rparr> ''en.json'' = Contents ''{}''
   \<and> distinct (map fst [(''a'', ''<b>x</b>''), (''c'', ''y'')])
   \<and> readJSONFile (\<lambda>b. objectLexemes [(''a'', ''<b>x</b>''), (''c'', ''y'')])
        \<lparr>files = (\<lambda>p. Contents ''{}''), dirsMadeFor = {}, mkdirFails = (\<lambda>p. False),
         writeFails = (\<lambda>p. False)\<rparr> ''en.json''
      = Inr \<lparr>keys = [''a'', ''c''], values' = map_of [(''a'', ''<b>x</b>''), (''c'', ''y'')]\<rparr>
   \<and> fst (writeJSONFile (\<lambda>escapeHTML v. CHR 0x22 # v @ [CHR 0x22] @ newline)
        \<lparr>files = (\<lambda>p. Contents ''{}''), dirsMadeFor = {}, mkdirFails = (\<lambda>p. False),
         writeFails = (\<lambda>p. False)\<rparr> ''fr.json''
        \<lparr>keys = [''a'', ''c''], values' = map_of [(''a'', ''<b>x</b>''), (''c'', ''y'')]\<rparr>)
      = None"
proof -
  let ?fs = "\<lparr>files = (\<lambda>p. Contents ''{}''), dirsMadeFor = {}, mkdirFails = (\<lambda>p. False),
         writeFails = (\<lambda>p. False)\<rparr>"
  let ?es = "[(''a'', ''<b>x</b>''), (''c'', ''y'')]"
  have f: "files ?fs ''en.json'' = Contents ''{}''" by simp
  have s: "(\<lambda>b. objectLexemes ?es) ''{}'' = objectLexemes ?es" by simp
  have d: "distinct (map fst ?es)" by simp
  show ?thesis
    using f d decode_encode_roundtrip [of ?fs "''en.json''" "''{}''" "\<lambda>b. objectLexemes ?es" ?es
        ?fs "''fr.json''" "\<lambda>escapeHTML v. CHR 0x22 # v @ [CHR 0x22] @ newline", OF f s d]
    by simp
qed

text \<open>
  Claim C6 as stated fails for a document that repeats a key. The object with the
  entries \<open>a: 1\<close>, \<open>b: 2\<close>, \<open>a: 3\<close> is read as the store with the keys \<open>a\<close>, \<open>b\<close> and
  the values \<open>3\<close>, \<open>2\<close>, and written back as a document of two entries.
\<close>

theorem decode_encode_roundtrip_counterexample:
  "(case readJSONFile (\<lambda>b. objectLexemes [(''a'', ''1''), (''b'', ''2''), (''a'', ''3'')])
          \<lparr>files = (\<lambda>p. Contents ''{}''), dirsMadeFor = {}, mkdirFails = (\<lambda>p. False),
           writeFails = (\<lambda>p. False)\<rparr> ''en.json'' of
      Inr om \<Rightarrow>
        keys om = [''a'', ''b''] \<and> map (values' om) (keys om) = [Some ''3'', Some ''2'']
        \<and> (case writeJSONFile (\<lambda>escapeHTML v. CHR 0x22 # v @ [CHR 0x22] @ newline)
                \<lparr>files = (\<lambda>p. NotExist), dirsMadeFor = {}, mkdirFails = (\<lambda>p. False),
                 writeFails = (\<lambda>p. False)\<rparr> ''fr.json'' om of
              (err, fs') \<Rightarrow>
                files fs' ''fr.json'' =
                  Contents (''{'' @ newline
                    @ ''  '' @ [CHR 0x22] @ ''a'' @ [CHR 0x22] @ '': '' @ [CHR 0x22] @ ''3'' @ [CHR 0x22] @ '','' @ newline
                    @ ''  '' @ [CHR 0x22] @ ''b'' @ [CHR 0x22] @ '': '' @ [CHR 0x22] @ ''2'' @ [CHR 0x22] @ newline
                    @ ''}'' @ newline))
    | Inl err \<Rightarrow> False)"
  by code_simp

section \<open>Properties of the run\<close>

lemma keys_NewOrderedMap: "keys NewOrderedMap = []"
  by (simp add: NewOrderedMap_def)

lemma mergeJSON_empty: "mergeJSON NewOrderedMap existing = (NewOrderedMap, [])"
  by (simp add: mergeJSON_def NewOrderedMap_def)

lemma readJSONFile_NotExist:
  "files fs filename = NotExist \<Longrightarrow> readJSONFile scan fs filename = Inr NewOrderedMap"
  by (simp add: readJSONFile_def)

text \<open>
  Claim C4, amended. \<^verbatim>\<open>readJSONFile\<close> returns the empty store and no error for every
  path at which no file exists, the input path included. When the input file does not
  exist the run does not abort there: it goes on as for an empty input document, reads
  the output file, and writes the empty store to the output path without translating.
\<close>

theorem absent_file_tolerated:
  assumes "files fs filename = NotExist"
  shows "readJSONFile scan fs filename = Inr NewOrderedMap
    \<and> (filename = inputFile cfg \<longrightarrow>
          translateJSON scan jsonEncode client cfg fs s =
            (case readJSONFile scan fs (outputFile cfg) of
               Inl err \<Rightarrow> (Some (wrapError ReadingOutputFile err), fs, s)
             | Inr outputJSON \<Rightarrow>
                 (case writeJSONFile jsonEncode fs (outputFile cfg) NewOrderedMap of
                    (Some err, fs') \<Rightarrow> (Some (wrapError WritingOutputFile err), fs', s)
                  | (None, fs') \<Rightarrow> (None, fs', s))))"
  using readJSONFile_NotExist [OF assms, of scan]
  by (auto simp: translateJSON_def mergeJSON_empty translateUntranslated_def
      split: sum.splits prod.splits option.splits)

text \<open>
  The amended claim at a file system without files: the run returns no error.
\<close>

theorem absent_file_tolerated_witness:
  "files \<lparr>files = (\<lambda>p. NotExist), dirsMadeFor = {}, mkdirFails = (\<lambda>p. False),
           writeFails = (\<lambda>p. False)\<rparr> ''en.json'' = NotExist
   \<and> readJSONFile (\<lambda>b. [])
        \<lparr>files = (\<lambda>p. NotExist), dirsMadeFor = {}, mkdirFails = (\<lambda>p. False),
         writeFails = (\<lambda>p. False)\<rparr> ''en.json'' = Inr NewOrderedMap
   \<and> fst (translateJSON (\<lambda>b. []) (\<lambda>escapeHTML v. v) identityClient
        \<lparr>inputFile = ''en.json'', outputFile = ''fr.json'', languageName = ''French'',
         batchSizeFlag = 100, customPromptEnv = [], modelFlag = ''gpt-4o-mini'', availableMemory = 1073741824\<rparr>
        \<lparr>files = (\<lambda>p. NotExist), dirsMadeFor = {}, mkdirFails = (\<lambda>p. False),
         writeFails = (\<lambda>p. False)\<rparr> ()) = None"
proof -
  let ?fs = "\<lparr>files = (\<lambda>p. NotExist), dirsMadeFor = {}, mkdirFails = (\<lambda>p. False),
         writeFails = (\<lambda>p. False)\<rparr>"
  let ?cfg = "\<lparr>inputFile = ''en.json'', outputFile = ''fr.json'', languageName = ''French'',
         batchSizeFlag = 100, customPromptEnv = [], modelFlag = ''gpt-4o-mini'', availableMemory = 1073741824\<rparr>"
  have f: "files ?fs ''en.json'' = NotExist" by simp
  note spec = absent_file_tolerated [OF f, of "\<lambda>b. []" ?cfg "\<lambda>escapeHTML v. v"
      identityClient "()"]
  have out: "readJSONFile (\<lambda>b. []) ?fs ''fr.json'' = Inr NewOrderedMap"
    by (simp add: readJSONFile_def)
  obtain fs' where wr: "writeJSONFile (\<lambda>escapeHTML v. v) ?fs ''fr.json'' NewOrderedMap
      = (None, fs')"
    by (simp add: writeJSONFile_def MkdirAllDir_def WriteFile_def keys_NewOrderedMap)
  have "translateJSON (\<lambda>b. []) (\<lambda>escapeHTML v. v) identityClient ?cfg ?fs () = (None, fs', ())"
    using spec by (simp add: out wr)
  then show ?thesis
    using f spec by simp
qed

text \<open>
  Claim C4 as stated fails. With no file at the input path (and none at the output path)
  the run returns no error and writes the document \<open>{}\<close> to the output path.
\<close>

theorem absent_input_counterexample:
  "(case translateJSON (\<lambda>b. []) (\<lambda>escapeHTML v. v) identityClient
          \<lparr>inputFile = ''locales/en.json'', outputFile = ''locales/fr.json'',
           languageName = ''French'', batchSizeFlag = 100, customPromptEnv = [],
           modelFlag = ''gpt-4o-mini'', availableMemory = 1073741824\<rparr>
          \<lparr>files = (\<lambda>p. NotExist), dirsMadeFor = {}, mkdirFails = (\<lambda>p. False),
           writeFails = (\<lambda>p. False)\<rparr> () of
      (err, fs', s') \<Rightarrow>
        err = None \<and> files fs' ''locales/fr.json'' = Contents (''{'' @ newline @ ''}'' @ newline))"
  by (simp add: translateJSON_def readJSONFile_def mergeJSON_empty translateUntranslated_def
      writeJSONFile_def MkdirAllDir_def WriteFile_def keys_NewOrderedMap)

text \<open>Logging changes nothing but the log.\<close>

lemma translateUntranslated_logged_result:
  assumes "translateUntranslated (logged c) cfg (s, log) merged us = (res, (s', log'))"
  shows "translateUntranslated c cfg s merged us = (res, s')"
proof (cases "length us > 0")
  case False
  with assms show ?thesis by (simp add: translateUntranslated_def)
next
  case True
  let ?toTranslate = "fold (\<lambda>key t. case Get merged key of (v, True) \<Rightarrow> Set t key v | (v, False) \<Rightarrow> t)
      us NewOrderedMap"
  obtain r s1 log1 where run: "translateJSONValues (availableMemory cfg) (logged c) (s, log)
      ?toTranslate (languageName cfg) (batchSizeFlag cfg) (customPromptEnv cfg) (modelFlag cfg) = (r, (s1, log1))"
    using prod_cases3 by blast
  note plain = translateJSONValues_logged_result [OF run]
  show ?thesis
    using assms True
    unfolding translateUntranslated_def Let_def run plain
    by (cases r) auto
qed

lemma translateJSON_logged_result:
  assumes "translateJSON scan jsonEncode (logged c) cfg fs (s, log) = (err, fs', (s', log'))"
  shows "translateJSON scan jsonEncode c cfg fs s = (err, fs', s')"
proof (cases "readJSONFile scan fs (inputFile cfg)")
  case (Inl e)
  with assms show ?thesis by (auto simp: translateJSON_def)
next
  case input: (Inr inputJSON)
  show ?thesis
  proof (cases "readJSONFile scan fs (outputFile cfg)")
    case (Inl e)
    with assms input show ?thesis by (auto simp: translateJSON_def)
  next
    case out: (Inr outputJSON)
    obtain merged us where merge: "mergeJSON inputJSON outputJSON = (merged, us)"
      by (cases "mergeJSON inputJSON outputJSON") auto
    obtain res s1 log1 where
      tr: "translateUntranslated (logged c) cfg (s, log) merged us = (res, (s1, log1))"
      using prod_cases3 by blast
    note plain = translateUntranslated_logged_result [OF tr]
    show ?thesis
    proof (cases res)
      case (Inl e)
      have "translateJSON scan jsonEncode (logged c) cfg fs (s, log) = (Some e, fs, (s1, log1))"
        by (simp add: translateJSON_def input out merge tr Inl)
      moreover have "translateJSON scan jsonEncode c cfg fs s = (Some e, fs, s1)"
        using plain by (simp add: translateJSON_def input out merge Inl)
      ultimately show ?thesis using assms by simp
    next
      case (Inr final)
      obtain werr fs2 where wr: "writeJSONFile jsonEncode fs (outputFile cfg) final = (werr, fs2)"
        by (cases "writeJSONFile jsonEncode fs (outputFile cfg) final") auto
      have "translateJSON scan jsonEncode (logged c) cfg fs (s, log) =
          (map_option (wrapError WritingOutputFile) werr, fs2, (s1, log1))"
        by (cases werr) (simp_all add: translateJSON_def input out merge tr Inr wr)
      moreover have "translateJSON scan jsonEncode c cfg fs s =
          (map_option (wrapError WritingOutputFile) werr, fs2, s1)"
        using plain by (cases werr) (simp_all add: translateJSON_def input out merge Inr wr)
      ultimately show ?thesis using assms by simp
    qed
  qed
qed

text \<open>The stores the program builds are well formed.\<close>

lemma readEntries_wf:
  "readEntries dec om = Inr (om', dec') \<Longrightarrow> wf_store om \<Longrightarrow> wf_store om'"
proof (induction dec om rule: readEntries.induct)
  case (1 decoder orderedMap)
  show ?case
  proof (cases "More decoder")
    case False
    with "1.prems" show ?thesis by (simp add: readEntries.simps)
  next
    case True
    with "1.prems"(1) obtain key decoder1 v decoder2 k where
      steps: "Token decoder = Some (key, decoder1)" "DecodeString decoder1 = Some (v, decoder2)"
        "key = TString k"
      and rest: "readEntries decoder2 (Set orderedMap k v) = Inr (om', dec')"
      by (subst (asm) readEntries.simps)
        (auto split: option.splits prod.splits token.splits)
    show ?thesis
      using "1.IH" [of "(key, decoder1)" key decoder1 "(v, decoder2)" v decoder2 k]
        True steps rest "1.prems"(2)
      by (simp add: wf_Set)
  qed
qed

lemma readJSONFile_wf: "readJSONFile scan fs filename = Inr om \<Longrightarrow> wf_store om"
  by (auto simp: readJSONFile_def wf_NewOrderedMap
      split: fentry.splits option.splits sum.splits prod.splits
      dest: readEntries_wf)


lemma answered_not_isl: "answered req resp \<Longrightarrow> \<not> isl resp"
  by (auto simp: answered_def split: sum.splits)

lemma translateUntranslated_log:
  assumes "translateUntranslated (logged c) cfg (s, log) merged us = (res, (s', log'))"
  shows "\<exists>new. log' = log @ new \<and> (\<not> isl res \<longrightarrow> (\<forall>(req, resp)\<in>set new. answered req resp))"
proof (cases "length us > 0")
  case False
  with assms have "log' = log"
    by (simp add: translateUntranslated_def)
  then show ?thesis by (intro exI [of _ "[]"]) simp
next
  case True
  let ?toTranslate = "fold (\<lambda>key t. case Get merged key of (v, True) \<Rightarrow> Set t key v | (v, False) \<Rightarrow> t)
      us NewOrderedMap"
  obtain r s1 log1 where run: "translateJSONValues (availableMemory cfg) (logged c) (s, log)
      ?toTranslate (languageName cfg) (batchSizeFlag cfg) (customPromptEnv cfg) (modelFlag cfg) = (r, (s1, log1))"
    using prod_cases3 by blast
  from translateJSONValues_log [OF run] obtain new where
    new: "log1 = log @ new" "\<not> isl r \<longrightarrow> (\<forall>(req, resp)\<in>set new. answered req resp)"
    by blast
  have unfolded: "translateUntranslated (logged c) cfg (s, log) merged us =
      (case r of
         Inl err \<Rightarrow> (Inl (wrapError TranslatingJSONValues err), (s1, log1))
       | Inr translatedData \<Rightarrow>
           (Inr (fold (\<lambda>key m. case Get translatedData key of
                                 (v, True) \<Rightarrow> Set m key v | (v, False) \<Rightarrow> m)
                  (keys translatedData) merged), (s1, log1)))"
    using True unfolding translateUntranslated_def Let_def run by (simp split: sum.splits)
  have "log' = log1 \<and> (isl res \<longleftrightarrow> isl r)"
    using assms unfolding unfolded by (cases r) auto
  with new show ?thesis by blast
qed

text \<open>
  Claim C8. For a run with any client, seen through the log of its calls (the run with
  the logging client returns what the run with the client itself returns): if a call
  returned an error, the run returns an error and the file system is as it was before
  the run; and if the file system has changed, every call the run made was answered with
  a content of as many lines as the request had texts.
\<close>

theorem no_write_on_translation_error:
  assumes "translateJSON scan jsonEncode (logged client) cfg fs (s, []) = (err, fs', (s', log))"
  shows "translateJSON scan jsonEncode client cfg fs s = (err, fs', s')
    \<and> ((\<exists>(req, resp)\<in>set log. isl resp) \<longrightarrow> err \<noteq> None \<and> fs' = fs)
    \<and> (fs' \<noteq> fs \<longrightarrow> (\<forall>(req, resp)\<in>set log. answered req resp))"
proof (rule conjI)
  show "translateJSON scan jsonEncode client cfg fs s = (err, fs', s')"
    using assms by (rule translateJSON_logged_result)
next
  show "((\<exists>(req, resp)\<in>set log. isl resp) \<longrightarrow> err \<noteq> None \<and> fs' = fs)
    \<and> (fs' \<noteq> fs \<longrightarrow> (\<forall>(req, resp)\<in>set log. answered req resp))"
  proof (cases "readJSONFile scan fs (inputFile cfg)")
    case (Inl e)
    then have "translateJSON scan jsonEncode (logged client) cfg fs (s, [])
        = (Some (wrapError ReadingInputFile e), fs, (s, []))"
      by (simp add: translateJSON_def)
    with assms have "log = []" and "fs' = fs" by simp_all
    then show ?thesis by simp
  next
    case input: (Inr inputJSON)
    show ?thesis
    proof (cases "readJSONFile scan fs (outputFile cfg)")
      case (Inl e)
      with input have "translateJSON scan jsonEncode (logged client) cfg fs (s, [])
          = (Some (wrapError ReadingOutputFile e), fs, (s, []))"
        by (simp add: translateJSON_def)
      with assms have "log = []" and "fs' = fs" by simp_all
      then show ?thesis by simp
    next
      case out: (Inr outputJSON)
      obtain merged us where merge: "mergeJSON inputJSON outputJSON = (merged, us)"
        by (cases "mergeJSON inputJSON outputJSON") auto
      obtain res s1 log1 where
        tr: "translateUntranslated (logged client) cfg (s, []) merged us = (res, (s1, log1))"
        using prod_cases3 by blast
      from translateUntranslated_log [OF tr]
      have ok: "\<not> isl res \<longrightarrow> (\<forall>(req, resp)\<in>set log1. answered req resp)"
        by simp
      show ?thesis
      proof (cases res)
        case (Inl e)
        have "translateJSON scan jsonEncode (logged client) cfg fs (s, []) = (Some e, fs, (s1, log1))"
          unfolding translateJSON_def by (simp add: input out merge tr Inl)
        with assms have "err \<noteq> None" and "fs' = fs" by auto
        then show ?thesis by simp
      next
        case (Inr final)
        obtain werr fs2 where wr: "writeJSONFile jsonEncode fs (outputFile cfg) final = (werr, fs2)"
          by (cases "writeJSONFile jsonEncode fs (outputFile cfg) final") auto
        have "snd (snd (translateJSON scan jsonEncode (logged client) cfg fs (s, []))) = (s1, log1)"
          unfolding translateJSON_def by (simp add: input out merge tr Inr wr split: option.splits)
        with assms have "log = log1" by simp
        with ok Inr have "\<forall>(req, resp)\<in>set log. answered req resp"
          by simp
        then show ?thesis
          using answered_not_isl by blast
      qed
    qed
  qed
qed

text \<open>
  The claim at a run whose one call fails: the log holds the failed call, the run
  returns an error, and the file system is unchanged.
\<close>

theorem no_write_on_translation_error_witness:
  "snd (snd (snd (translateJSON (\<lambda>b. objectLexemes [(''a'', ''Hello'')]) (\<lambda>escapeHTML v. v)
       (logged (\<lambda>s req. (Inl ''503'', s)))
       \<lparr>inputFile = ''en.json'', outputFile = ''fr.json'', languageName = ''French'',
        batchSizeFlag = 100, customPromptEnv = [], modelFlag = ''gpt-4o-mini'', availableMemory = 1073741824\<rparr>
       \<lparr>files = (\<lambda>p. if p = ''en.json'' then Contents ''{}'' else NotExist), dirsMadeFor = {},
        mkdirFails = (\<lambda>p. False), writeFails = (\<lambda>p. False)\<rparr> ((), []))))
     = [(chatRequest ''gpt-4o-mini'' [] ''French'' [''Hello''], Inl ''503'')]
   \<and> fst (translateJSON (\<lambda>b. objectLexemes [(''a'', ''Hello'')]) (\<lambda>escapeHTML v. v)
       (logged (\<lambda>s req. (Inl ''503'', s)))
       \<lparr>inputFile = ''en.json'', outputFile = ''fr.json'', languageName = ''French'',
        batchSizeFlag = 100, customPromptEnv = [], modelFlag = ''gpt-4o-mini'', availableMemory = 1073741824\<rparr>
       \<lparr>files = (\<lambda>p. if p = ''en.json'' then Contents ''{}'' else NotExist), dirsMadeFor = {},
        mkdirFails = (\<lambda>p. False), writeFails = (\<lambda>p. False)\<rparr> ((), [])) \<noteq> None
   \<and> fst (snd (translateJSON (\<lambda>b. objectLexemes [(''a'', ''Hello'')]) (\<lambda>escapeHTML v. v)
       (logged (\<lambda>s req. (Inl ''503'', s)))
       \<lparr>inputFile = ''en.json'', outputFile = ''fr.json'', languageName = ''French'',
        batchSizeFlag = 100, customPromptEnv = [], modelFlag = ''gpt-4o-mini'', availableMemory = 1073741824\<rparr>
       \<lparr>files = (\<lambda>p. if p = ''en.json'' then Contents ''{}'' else NotExist), dirsMadeFor = {},
        mkdirFails = (\<lambda>p. False), writeFails = (\<lambda>p. False)\<rparr> ((), [])))
     = \<lparr>files = (\<lambda>p. if p = ''en.json'' then Contents ''{}'' else NotExist), dirsMadeFor = {},
        mkdirFails = (\<lambda>p. False), writeFails = (\<lambda>p. False)\<rparr>"
proof -
  let ?fs = "\<lparr>files = (\<lambda>p. if p = ''en.json'' then Contents ''{}'' else NotExist), dirsMadeFor = {},
        mkdirFails = (\<lambda>p. False), writeFails = (\<lambda>p. False)\<rparr>"
  let ?run = "translateJSON (\<lambda>b. objectLexemes [(''a'', ''Hello'')]) (\<lambda>escapeHTML v. v)
       (logged (\<lambda>s req. (Inl ''503'', s)))
       \<lparr>inputFile = ''en.json'', outputFile = ''fr.json'', languageName = ''French'',
        batchSizeFlag = 100, customPromptEnv = [], modelFlag = ''gpt-4o-mini'', availableMemory = 1073741824\<rparr> ?fs ((), [])"
  have log: "snd (snd (snd ?run)) = [(chatRequest ''gpt-4o-mini'' [] ''French'' [''Hello''], Inl ''503'')]"
    by code_simp
  have run: "?run = (fst ?run, fst (snd ?run), ((), snd (snd (snd ?run))))"
    by (simp add: prod_eq_iff)
  from no_write_on_translation_error [OF run] log
  have "fst ?run \<noteq> None \<and> fst (snd ?run) = ?fs"
    by simp
  with log show ?thesis by simp
qed













end
